theory Spec2Isabelle
  imports Main "HOL-Library.Multiset"
begin

section \<open>Code folding: data model\<close>

text \<open>
  Offsets into the text are JavaScript numbers holding integers; they are modelled as
  \<open>int\<close>. A fold range is the two-element array \<open>[start, end]\<close>.

  \<open>foldPositions\<close> is a sparse array indexed by line number whose entries are either
  \<open>undefined\<close> or a range. It is a list of options; reading past the end of a
  JavaScript array gives \<open>undefined\<close>, which is \<open>None\<close> here. Line numbers are indices
  of this array and are natural numbers.

  \<open>foldedLines\<close> is a \<open>Set<number>\<close> and \<open>foldedRanges\<close> a \<open>Set<[number, number]>\<close>.
  A JavaScript \<open>Set\<close> iterates in insertion order, and \<open>foldedRanges\<close> holds array
  objects compared by identity and mutated in place, so both are lists in insertion
  order: the position in the list is the identity of the range.
\<close>

type_synonym range = "int \<times> int"

type_synonym anchor_table = "range option list"

definition lookup :: "anchor_table \<Rightarrow> nat \<Rightarrow> range option" where
  "lookup foldPositions line =
     (if line < length foldPositions then foldPositions ! line else None)"

record fold_state =
  foldedLines :: "nat list"
  foldedRanges :: "range list"

definition init_state :: fold_state where
  "init_state = \<lparr>foldedLines = [], foldedRanges = []\<rparr>"

datatype error = TypeError

subsection \<open>getPosition\<close>

text \<open>
  The loop of \<open>getPosition\<close> over \<open>foldedRanges\<close>, in insertion order, with the running
  \<open>result\<close> as accumulator; \<open>return -1\<close> leaves the loop at once.
\<close>

fun getPosition_loop :: "int \<Rightarrow> int \<Rightarrow> range list \<Rightarrow> int" where
  "getPosition_loop pos result [] = result"
| "getPosition_loop pos result ((start, end') # rs) =
     (if pos > start then
        (if pos < end' then - 1
         else getPosition_loop pos (result - (end' - start - 3)) rs)
      else getPosition_loop pos result rs)"

definition getPosition :: "range list \<Rightarrow> int \<Rightarrow> int" where
  "getPosition ranges pos = getPosition_loop pos pos ranges"

subsection \<open>toggleFold and addFold\<close>

text \<open>
  The loop of \<open>addFold\<close>. A range whose start lies in \<open>[start, end)\<close> is widened in
  place when it is the first such range (\<open>expanded\<close> is still unset) and deleted from
  the set otherwise. The result is the new content of the set together with the flag.
\<close>

fun addFold_loop :: "int \<Rightarrow> int \<Rightarrow> bool \<Rightarrow> range list \<Rightarrow> range list \<times> bool" where
  "addFold_loop start end' expanded [] = ([], expanded)"
| "addFold_loop start end' expanded ((r0, r1) # rs) =
     (if start \<le> r0 \<and> end' > r0 then
        (if expanded then addFold_loop start end' expanded rs
         else (let (rs', x) = addFold_loop start end' True rs
               in ((start, if end' > r1 then end' else r1) # rs', x)))
      else (let (rs', x) = addFold_loop start end' expanded rs
            in ((r0, r1) # rs', x)))"

definition addFold :: "range \<Rightarrow> range list \<Rightarrow> range list" where
  "addFold r ranges =
     (let (rs', expanded) = addFold_loop (fst r) (snd r) False ranges
      in if expanded then rs' else rs' @ [r])"

text \<open>
  The inner loop of the unfold branch: every line still in \<open>foldedLines\<close> whose anchor
  starts after \<open>start\<close> is added again. \<open>foldPositions[currentLine]![0]\<close> throws a
  \<open>TypeError\<close> when the entry is \<open>undefined\<close>.
\<close>

fun readd :: "anchor_table \<Rightarrow> int \<Rightarrow> nat list \<Rightarrow> range list \<Rightarrow> error + range list" where
  "readd foldPositions start [] ranges = Inr ranges"
| "readd foldPositions start (currentLine # ls) ranges =
     (case lookup foldPositions currentLine of
        None \<Rightarrow> Inl TypeError
      | Some r \<Rightarrow>
          if fst r > start then readd foldPositions start ls (addFold r ranges)
          else readd foldPositions start ls ranges)"

text \<open>
  The outer loop of the unfold branch looks for the first range that starts at \<open>start\<close>,
  deletes it, runs the inner loop and stops (\<open>break\<close>). \<open>passed\<close> holds the ranges
  already passed, in order.
\<close>

fun unfold_loop ::
  "anchor_table \<Rightarrow> int \<Rightarrow> nat list \<Rightarrow> range list \<Rightarrow> range list \<Rightarrow> error + range list" where
  "unfold_loop foldPositions start ls passed [] = Inr passed"
| "unfold_loop foldPositions start ls passed (r # rs) =
     (if start = fst r then readd foldPositions start ls (passed @ rs)
      else unfold_loop foldPositions start ls (passed @ [r]) rs)"

definition toggleFold :: "anchor_table \<Rightarrow> nat \<Rightarrow> fold_state \<Rightarrow> error + fold_state" where
  "toggleFold foldPositions line st =
     (case lookup foldPositions line of
        None \<Rightarrow> Inl TypeError
      | Some r \<Rightarrow>
          if line \<in> set (foldedLines st) then
            (let ls = removeAll line (foldedLines st)
             in case unfold_loop foldPositions (fst r) ls [] (foldedRanges st) of
                  Inl e \<Rightarrow> Inl e
                | Inr rs \<Rightarrow> Inr \<lparr>foldedLines = ls, foldedRanges = rs\<rparr>)
          else
            Inr \<lparr>foldedLines = foldedLines st @ [line],
                 foldedRanges = addFold r (foldedRanges st)\<rparr>)"

text \<open>A sequence of \<open>toggleFold\<close> calls; an exception ends the run.\<close>

fun toggles :: "anchor_table \<Rightarrow> nat list \<Rightarrow> fold_state \<Rightarrow> error + fold_state" where
  "toggles foldPositions [] st = Inr st"
| "toggles foldPositions (line # ls) st =
     (case toggleFold foldPositions line st of
        Inl e \<Rightarrow> Inl e
      | Inr st' \<Rightarrow> toggles foldPositions ls st')"

text \<open>
  The method \<open>toggleFold(lineNumber, force)\<close> of \<open>extensions.folding\<close>. \<open>force\<close> is a
  boolean or \<open>undefined\<close> (\<open>None\<close>); \<open>foldedLines.has(lineNumber) != force\<close> is the
  loose inequality, which holds for every boolean against \<open>undefined\<close>. The inner
  \<open>toggleFold\<close> returns \<open>undefined\<close>, so the method returns \<open>true\<close> after calling it.
\<close>

definition loose_neq :: "bool \<Rightarrow> bool option \<Rightarrow> bool" where
  "loose_neq b force = (case force of None \<Rightarrow> True | Some f \<Rightarrow> b \<noteq> f)"

definition folding_toggleFold ::
  "anchor_table \<Rightarrow> nat \<Rightarrow> bool option \<Rightarrow> fold_state \<Rightarrow> error + (bool \<times> fold_state)" where
  "folding_toggleFold foldPositions lineNumber force st =
     (if lookup foldPositions lineNumber \<noteq> None
         \<and> loose_neq (lineNumber \<in> set (foldedLines st)) force
      then (case toggleFold foldPositions lineNumber st of
              Inl e \<Rightarrow> Inl e
            | Inr st' \<Rightarrow> Inr (True, st'))
      else Inr (False, st))"

subsection \<open>Properties of sets of ranges\<close>

text \<open>
  An offset is hidden when it lies strictly inside a folded range; \<open>shrink\<close> is what the
  folded ranges that end at or before an offset take away from it.
\<close>

definition hidden :: "range list \<Rightarrow> int \<Rightarrow> bool" where
  "hidden rs p = (\<exists>(s, e) \<in> set rs. s < p \<and> p < e)"

definition shrink :: "range list \<Rightarrow> int \<Rightarrow> int" where
  "shrink rs p = (\<Sum>(s, e) \<leftarrow> filter (\<lambda>(s, e). s < p \<and> e \<le> p) rs. e - s - 3)"

definition disjoint_ranges :: "range \<Rightarrow> range \<Rightarrow> bool" where
  "disjoint_ranges r r' = (snd r \<le> fst r' \<or> snd r' \<le> fst r)"

definition non_overlapping :: "range list \<Rightarrow> bool" where
  "non_overlapping rs = sorted_wrt disjoint_ranges rs"

definition valid_ranges :: "range list \<Rightarrow> bool" where
  "valid_ranges rs = (\<forall>(s, e) \<in> set rs. 0 \<le> s \<and> s < e)"

definition sorted_by_start :: "range list \<Rightarrow> bool" where
  "sorted_by_start rs = sorted (map fst rs)"

text \<open>
  The walk of the specification (4.2): the same steps, over the folded set sorted
  ascending by start.
\<close>

fun toViewOffset_walk :: "int \<Rightarrow> int \<Rightarrow> range list \<Rightarrow> int" where
  "toViewOffset_walk rawOffset result [] = result"
| "toViewOffset_walk rawOffset result ((s, e) # rs) =
     (if s < rawOffset then
        (if rawOffset < e then - 1
         else toViewOffset_walk rawOffset (result - (e - s - 3)) rs)
      else toViewOffset_walk rawOffset result rs)"

definition toViewOffset_spec :: "range list \<Rightarrow> int \<Rightarrow> int" where
  "toViewOffset_spec foldedSet rawOffset =
     toViewOffset_walk rawOffset rawOffset (sort_key fst foldedSet)"

text \<open>
  The closed form in which the walk is summarised: \<open>-1\<close> when a range strictly contains
  the offset, and otherwise the offset minus \<open>e - s - 3\<close> for every range that ends at or
  before it, whatever its start.
\<close>

definition ends_before :: "int \<Rightarrow> range \<Rightarrow> bool" where
  "ends_before p r = (snd r \<le> p)"

definition toViewOffset_stated :: "range list \<Rightarrow> int \<Rightarrow> int" where
  "toViewOffset_stated foldedSet rawOffset =
     (if hidden foldedSet rawOffset then - 1
      else rawOffset - (\<Sum>(s, e) \<leftarrow> filter (ends_before rawOffset) foldedSet. e - s - 3))"

text \<open>
  An anchor table built by \<open>createFolds\<close> keys each range by the line of its start, so
  the starts grow with the line number. The table is well nested when any two of its
  ranges are disjoint or one lies inside the other, as bracket and tag pairs are.
\<close>

definition table_ok :: "anchor_table \<Rightarrow> bool" where
  "table_ok T =
     ((\<forall>l \<in> {..<length T}. \<forall>r. T ! l = Some r \<longrightarrow> fst r < snd r) \<and>
      (\<forall>l \<in> {..<length T}. \<forall>l' \<in> {..<length T}. \<forall>r r'.
          l < l' \<and> T ! l = Some r \<and> T ! l' = Some r' \<longrightarrow>
          fst r < fst r' \<and> (snd r \<le> fst r' \<or> snd r' \<le> snd r)))"

text \<open>
  A run of toggles in which every toggled line has an anchor whose start is not hidden at
  the time of the call. \<open>updateFolds\<close> places a toggle on a line only when \<open>getPosition\<close>
  of the start of its anchor is not \<open>-1\<close>, and the start is not hidden then.
\<close>

fun visible_run :: "anchor_table \<Rightarrow> nat list \<Rightarrow> fold_state \<Rightarrow> bool" where
  "visible_run T [] st = True"
| "visible_run T (l # ls) st =
     (case lookup T l of
        None \<Rightarrow> False
      | Some r \<Rightarrow> \<not> hidden (foldedRanges st) (fst r) \<and>
          (case toggleFold T l st of
             Inl e \<Rightarrow> False
           | Inr st' \<Rightarrow> visible_run T ls st'))"

text \<open>
  Properties of a state with respect to its anchor table. Every folded line has an
  anchor, and every folded range is the anchor range of a folded line.
\<close>

definition anchored :: "anchor_table \<Rightarrow> nat list \<Rightarrow> bool" where
  "anchored T ls = (\<forall>l \<in> set ls. lookup T l \<noteq> None)"

definition line_ranges :: "anchor_table \<Rightarrow> nat list \<Rightarrow> range set" where
  "line_ranges T ls = {r. \<exists>l \<in> set ls. lookup T l = Some r}"

text \<open>
  A family of ranges is laminar when its ranges are not empty, have different starts and
  any two of them are disjoint or nested.
\<close>

definition laminar :: "range set \<Rightarrow> bool" where
  "laminar R =
     ((\<forall>r \<in> R. fst r < snd r) \<and>
      (\<forall>r \<in> R. \<forall>r' \<in> R.
          (fst r = fst r' \<longrightarrow> r = r') \<and>
          (fst r < fst r' \<longrightarrow> snd r \<le> fst r' \<or> snd r' \<le> snd r)))"

definition absorbs :: "range \<Rightarrow> range \<Rightarrow> bool" where
  "absorbs r x = (fst r \<le> fst x \<and> fst x < snd r)"

definition covers :: "range \<Rightarrow> range \<Rightarrow> bool" where
  "covers c r = (fst c \<le> fst r \<and> snd r \<le> snd c)"

definition contains_start :: "range \<Rightarrow> range \<Rightarrow> bool" where
  "contains_start a b = (fst a < fst b \<and> fst b < snd a)"

text \<open>
  A state is consistent with the anchor table when the folded lines are anchored and
  every folded range is the anchor range of a folded line. \<open>replay\<close> is the effect of
  the inner loop of the unfold branch on the ranges.
\<close>

definition consistent :: "anchor_table \<Rightarrow> fold_state \<Rightarrow> bool" where
  "consistent T st =
     (distinct (foldedLines st) \<and> anchored T (foldedLines st) \<and>
      distinct (foldedRanges st) \<and> set (foldedRanges st) \<subseteq> line_ranges T (foldedLines st))"

definition replay :: "range list \<Rightarrow> range list \<Rightarrow> range list" where
  "replay ps rs = foldl (\<lambda>acc r. addFold r acc) rs ps"

definition later_ranges :: "anchor_table \<Rightarrow> int \<Rightarrow> nat list \<Rightarrow> range list" where
  "later_ranges T start ls = filter (\<lambda>r. fst r > start) (map (the \<circ> lookup T) ls)"

text \<open>
  The invariant of the states that the toggles of visible lines reach: the state is
  consistent, every anchor range of a folded line lies inside some folded range, two
  different folded ranges are disjoint, and of two folded lines the earlier folded one
  never contains the start of the later one.
\<close>

definition fold_inv :: "anchor_table \<Rightarrow> fold_state \<Rightarrow> bool" where
  "fold_inv T st =
     (consistent T st \<and>
      (\<forall>r \<in> line_ranges T (foldedLines st). \<exists>c \<in> set (foldedRanges st). covers c r) \<and>
      (\<forall>a \<in> set (foldedRanges st). \<forall>b \<in> set (foldedRanges st).
          a \<noteq> b \<longrightarrow> disjoint_ranges a b) \<and>
      sorted_wrt (\<lambda>a b. \<not> contains_start a b) (map (the \<circ> lookup T) (foldedLines st)))"

section \<open>The line diff of the editor's render effect\<close>

text \<open>
  The render effect of \<open>Editor\<close> compares the new array of highlighted lines with the
  previous one. Reading a JavaScript array outside its bounds gives \<open>undefined\<close>
  (\<open>None\<close>), and \<open>==\<close> on two values that are strings or \<open>undefined\<close> is equality of
  options. The line elements of the DOM after the overlays (\<open>lines[1]\<close>, \<open>lines[2]\<close>, ...)
  are modelled by the list of their \<open>innerHTML\<close>.
\<close>

definition nth_opt :: "'a list \<Rightarrow> int \<Rightarrow> 'a option" where
  "nth_opt xs i = (if 0 \<le> i \<and> i < int (length xs) then Some (xs ! nat i) else None)"

definition newline :: char where
  "newline = CHR 0x0A"

text \<open>String concatenation \<open>x + "\n"\<close> of a value that may be \<open>undefined\<close>.\<close>

definition html_line :: "string option \<Rightarrow> string" where
  "html_line x = (case x of Some s \<Rightarrow> s | None \<Rightarrow> ''undefined'') @ [newline]"

text \<open>\<open>while (newLines[start] == prevLines[start] && start < end1) ++start\<close>\<close>

function diff_prefix :: "string list \<Rightarrow> string list \<Rightarrow> int \<Rightarrow> int \<Rightarrow> int" where
  "diff_prefix newLines prevLines end1 start =
     (if nth_opt newLines start = nth_opt prevLines start \<and> start < end1
      then diff_prefix newLines prevLines end1 (start + 1)
      else start)"
  by pat_completeness auto
termination
  by (relation "measure (\<lambda>(newLines, prevLines, end1, start). nat (end1 - start))") auto

declare diff_prefix.simps [simp del]

text \<open>
  \<open>while (end1 && newLines[--end1] == prevLines[--end2]);\<close> Here \<open>end1\<close> starts as the
  length of \<open>newLines\<close> and stops at zero; \<open>end2\<close> may become negative.
\<close>

fun diff_suffix :: "string list \<Rightarrow> string list \<Rightarrow> nat \<Rightarrow> int \<Rightarrow> nat \<times> int" where
  "diff_suffix newLines prevLines 0 end2 = (0, end2)"
| "diff_suffix newLines prevLines (Suc end1) end2 =
     (if nth_opt newLines (int end1) = nth_opt prevLines (end2 - 1)
      then diff_suffix newLines prevLines end1 (end2 - 1)
      else (end1, end2 - 1))"

record render_state =
  prevLines :: "string list"
  lineCount :: nat
  dom_lines :: "string list"

text \<open>
  The body of the effect after the first render. In the degenerate case one line element
  gets new content. Otherwise \<open>end2 - i\<close> elements are removed at \<open>lines[start + 1]\<close> and
  the new lines \<open>insertStart + 1, ..., end1\<close> are inserted after \<open>lines[insertStart + 1]\<close>.
  Calling a method of an element that does not exist throws a \<open>TypeError\<close>. The
  \<open>data-line\<close> attributes, the width of the number column and the selection, which the
  effect sets afterwards, are not part of the model.
\<close>

definition render_lines :: "render_state \<Rightarrow> string list \<Rightarrow> error + render_state" where
  "render_lines st newLines =
     (let start = diff_prefix newLines (prevLines st) (int (length newLines)) 0;
          (e1, end2) = diff_suffix newLines (prevLines st) (length newLines) (int (lineCount st));
          end1 = int e1;
          dom = dom_lines st
      in if start = end1 \<and> start = end2 then
           (if start < int (length dom)
            then Inr \<lparr>prevLines = newLines, lineCount = length newLines,
                      dom_lines = dom[nat start := html_line (nth_opt newLines start)]\<rparr>
            else Inl TypeError)
         else
           (let insertStart = (if end2 < start then end2 else start - 1);
                newHTML = map (\<lambda>i. html_line (nth_opt newLines i)) [insertStart + 1..end1];
                i0 = (if end1 < start then end1 else start - 1);
                removed = nat (end2 - i0)
            in if removed > 0 \<and> \<not> (0 \<le> start \<and> nat start + removed \<le> length dom)
               then Inl TypeError
               else
                 (let dom1 = (if removed > 0 then take (nat start) dom @ drop (nat start + removed) dom
                              else dom)
                  in if newHTML = [] then
                       Inr \<lparr>prevLines = newLines, lineCount = length newLines, dom_lines = dom1\<rparr>
                     else if 0 \<le> insertStart + 1 \<and> insertStart + 1 \<le> int (length dom1)
                     then Inr \<lparr>prevLines = newLines, lineCount = length newLines,
                               dom_lines = take (nat (insertStart + 1)) dom1 @ newHTML
                                           @ drop (nat (insertStart + 1)) dom1\<rparr>
                     else Inl TypeError)))"

text \<open>Two line arrays of equal length that differ at index \<open>k\<close> and nowhere else.\<close>

definition differ_only_at :: "string list \<Rightarrow> string list \<Rightarrow> nat \<Rightarrow> bool" where
  "differ_only_at newL prevL k =
     (length newL = length prevL \<and> k < length prevL \<and>
      newL ! k \<noteq> prevL ! k \<and>
      (\<forall>i \<in> {..<length prevL}. i \<noteq> k \<longrightarrow> newL ! i = prevL ! i))"

section \<open>Strings\<close>

text \<open>
  JavaScript strings are modelled as lists of characters, one character for each code
  unit; offsets and lengths count them. \<open>String.prototype.slice\<close> counts a negative
  index from the end and clamps both indices to the string.
\<close>

definition js_slice :: "string \<Rightarrow> int \<Rightarrow> int \<Rightarrow> string" where
  "js_slice str start end' =
     (let len = int (length str);
          from = (if start < 0 then max (len + start) 0 else min start len);
          to = (if end' < 0 then max (len + end') 0 else min end' len)
      in take (nat (to - from)) (drop (nat from) str))"

definition js_slice_from :: "string \<Rightarrow> int \<Rightarrow> string" where
  "js_slice_from str start = js_slice str start (int (length str))"

definition isMultiline :: "string \<Rightarrow> int \<Rightarrow> int \<Rightarrow> bool" where
  "isMultiline str start end' = (newline \<in> set (js_slice str start end'))"

text \<open>
  \<open>str.indexOf(c, position)\<close> for a one-character search string: the first index at or
  after the position, clamped to the string, or \<open>-1\<close>.
\<close>

fun index_of :: "char \<Rightarrow> string \<Rightarrow> nat option" where
  "index_of c [] = None"
| "index_of c (x # xs) = (if x = c then Some 0 else map_option Suc (index_of c xs))"

definition indexOf :: "string \<Rightarrow> char \<Rightarrow> int \<Rightarrow> int" where
  "indexOf str c position =
     (case index_of c (drop (nat position) str) of
        None \<Rightarrow> - 1
      | Some i \<Rightarrow> int (nat position + i))"

lemma index_of_less: "index_of c xs = Some i \<Longrightarrow> i < length xs"
  by (induction xs arbitrary: i) (auto split: if_splits)

lemma indexOf_bounds:
  "indexOf str c position \<noteq> - 1 \<Longrightarrow>
   position \<le> indexOf str c position \<and> indexOf str c position < int (length str)"
  by (auto simp: indexOf_def split: option.splits dest!: index_of_less)

text \<open>
  \<open>numLines(str, start, end)\<close>: one more than the number of line feeds from \<open>start\<close> on
  whose index is below \<open>end\<close>. The loop assigns \<open>start = str.indexOf("\n", start) + 1\<close> and
  goes on while that is not zero and at most \<open>end\<close>.
\<close>

function numLines_loop :: "string \<Rightarrow> int \<Rightarrow> int \<Rightarrow> nat \<Rightarrow> nat" where
  "numLines_loop str end' start cnt =
     (let start' = indexOf str newline start + 1
      in if start' \<noteq> 0 \<and> start' \<le> end' then numLines_loop str end' start' (Suc cnt)
         else cnt)"
  by pat_completeness auto
termination
proof (relation "measure (\<lambda>(str, end', start, cnt). nat (int (length str) - start))")
  show "wf (measure (\<lambda>(str, end', start, cnt). nat (int (length str) - start)))"
    by simp
next
  fix str :: string and end' start :: int and cnt :: nat and x
  assume "x = indexOf str newline start + 1" "x \<noteq> 0 \<and> x \<le> end'"
  then show "((str, end', x, Suc cnt), (str, end', start, cnt))
      \<in> measure (\<lambda>(str, end', start, cnt). nat (int (length str) - start))"
    using indexOf_bounds[of str newline start] by auto
qed

declare numLines_loop.simps [simp del]

definition numLines :: "string \<Rightarrow> int \<Rightarrow> int \<Rightarrow> nat" where
  "numLines str start end' = numLines_loop str end' start 1"

section \<open>Collecting the foldable ranges\<close>

text \<open>
  A token stream of the tokenizer holds strings and tokens; the content of a token is a
  string or a token stream again, and \<open>length\<close> is the number of characters the token
  spans. The alias of a token is optional.
\<close>

datatype token = TStr string | Token (tok_type: string) (tok_alias: "string option")
    (tok_content: content) (tok_length: nat)
and content = Text string | Nested "token list"

text \<open>\<open>token.alias || token.type\<close>: an absent or empty alias gives way to the type.\<close>

definition aliasType :: "string option \<Rightarrow> string \<Rightarrow> string" where
  "aliasType alias type = (case alias of None \<Rightarrow> type | Some a \<Rightarrow> if a = [] then type else a)"

text \<open>
  \<open>languageMap[language]?.comments?.block\<close>, the pair of block comment delimiters of a
  language, is a parameter of the model.
\<close>

type_synonym language_map = "string \<Rightarrow> (string \<times> string) option"

text \<open>\<open>value.indexOf(s, position) == position\<close>\<close>

definition starts_at :: "string \<Rightarrow> string \<Rightarrow> int \<Rightarrow> bool" where
  "starts_at str s position =
     (0 \<le> position \<and> position \<le> int (length str)
      \<and> take (length s) (drop (nat position) str) = s)"

text \<open>
  \<open>findBlockComments\<close> of \<open>blockCommentFolding\<close>; the result is what the call pushes to
  \<open>folds\<close>, in order. A string of the stream has no type, alias or content and only
  advances the position.
\<close>

fun findBlockComments ::
  "string \<Rightarrow> language_map \<Rightarrow> token list \<Rightarrow> int \<Rightarrow> string \<Rightarrow> range list" where
  "findBlockComments str lm [] position language = []"
| "findBlockComments str lm (TStr s # ts) position language =
     findBlockComments str lm ts (position + int (length s)) language"
| "findBlockComments str lm (Token type alias (Text c) len # ts) position language =
     (if aliasType alias type = ''comment'' \<and> isMultiline str position (position + int len)
      then (case lm language of
              Some (open', close') \<Rightarrow>
                if starts_at str open' position
                then [(position + int (length open'), position + int len - int (length close'))]
                else []
            | None \<Rightarrow> [])
      else [])
     @ findBlockComments str lm ts (position + int len) language"
| "findBlockComments str lm (Token type alias (Nested toks) len # ts) position language =
     (if aliasType alias type = ''comment'' \<and> isMultiline str position (position + int len)
      then (case lm language of
              Some (open', close') \<Rightarrow>
                if starts_at str open' position
                then [(position + int (length open'), position + int len - int (length close'))]
                else []
            | None \<Rightarrow> [])
      else findBlockComments str lm toks position
             (if take 9 (aliasType alias type) = ''language-''
              then drop 9 (aliasType alias type) else language))
     @ findBlockComments str lm ts (position + int len) language"

definition blockCommentFolding ::
  "token list \<Rightarrow> string \<Rightarrow> string \<Rightarrow> language_map \<Rightarrow> range list" where
  "blockCommentFolding tokens str language lm = findBlockComments str lm tokens 0 language"

text \<open>
  The entries of \<open>matchTags.tags\<close> and \<open>matchBrackets.brackets\<close> are tuples; \<open>createFolds\<close>
  reads the positions at index 1 and 2 of a tag and the position at index 1 and the text
  at index 3 of a bracket. \<open>pairs[i]\<close> is the index of the partner or \<open>undefined\<close>.
\<close>

record tag =
  tag_1 :: int
  tag_2 :: int

record bracket =
  bracket_1 :: int
  bracket_3 :: string

text \<open>Running a loop body for each index in turn; an exception ends the loop.\<close>

fun gather :: "(nat \<Rightarrow> error + range list) \<Rightarrow> nat list \<Rightarrow> error + range list" where
  "gather f [] = Inr []"
| "gather f (i # is) =
     (case f i of
        Inl e \<Rightarrow> Inl e
      | Inr xs \<Rightarrow> (case gather f is of Inl e \<Rightarrow> Inl e | Inr ys \<Rightarrow> Inr (xs @ ys)))"

text \<open>
  The body of the loop over the tag pairs. \<open>(j = pairs[i]!) > i\<close> is false for
  \<open>undefined\<close>; reading \<open>tags[i][2]\<close> of a missing entry throws.
\<close>

definition tag_fold :: "string \<Rightarrow> tag list \<Rightarrow> nat option list \<Rightarrow> nat \<Rightarrow> error + range list" where
  "tag_fold str tags pairs i =
     (case pairs ! i of
        None \<Rightarrow> Inr []
      | Some j \<Rightarrow>
          if j > i then
            (if i < length tags \<and> j < length tags then
               (if isMultiline str (tag_2 (tags ! i)) (tag_1 (tags ! j))
                then Inr [(tag_2 (tags ! i), tag_1 (tags ! j))] else Inr [])
             else Inl TypeError)
          else Inr [])"

definition bracket_fold ::
  "string \<Rightarrow> bracket list \<Rightarrow> nat option list \<Rightarrow> nat \<Rightarrow> error + range list" where
  "bracket_fold str brackets pairs i =
     (case pairs ! i of
        None \<Rightarrow> Inr []
      | Some j \<Rightarrow>
          if j > i then
            (if i < length brackets then
               (if bracket_3 (brackets ! i) \<noteq> ''(''
                then (if j < length brackets then
                        (if isMultiline str (bracket_1 (brackets ! i)) (bracket_1 (brackets ! j))
                         then Inr [(bracket_1 (brackets ! i) + int (length (bracket_3 (brackets ! i))),
                                    bracket_1 (brackets ! j))]
                         else Inr [])
                      else Inl TypeError)
                else Inr [])
             else Inl TypeError)
          else Inr [])"

text \<open>
  A provider is called with the editor and the folds collected so far; the editor is part
  of the provider here. \<open>providers.forEach(clb => folds.push(...clb(editor, folds)))\<close>
\<close>

type_synonym provider = "range list \<Rightarrow> range list"

fun run_providers :: "provider list \<Rightarrow> range list \<Rightarrow> range list" where
  "run_providers [] folds = folds"
| "run_providers (clb # clbs) folds = run_providers clbs (folds @ clb folds)"

definition collect_folds ::
  "string \<Rightarrow> (tag list \<times> nat option list) option \<Rightarrow> (bracket list \<times> nat option list) option
   \<Rightarrow> provider list \<Rightarrow> error + range list" where
  "collect_folds str matchTags matchBrackets providers =
     (case (case matchTags of
              None \<Rightarrow> Inr []
            | Some (tags, pairs) \<Rightarrow> gather (tag_fold str tags pairs) [0..<length pairs]) of
        Inl e \<Rightarrow> Inl e
      | Inr tfolds \<Rightarrow>
         (case (case matchBrackets of
                  None \<Rightarrow> Inr []
                | Some (brackets, pairs) \<Rightarrow>
                    gather (bracket_fold str brackets pairs) [0..<length pairs]) of
            Inl e \<Rightarrow> Inl e
          | Inr bfolds \<Rightarrow> Inr (run_providers providers (tfolds @ bfolds))))"

text \<open>
  Assigning to an index of a JavaScript array at or past its length extends the array
  with holes.
\<close>

definition array_set :: "'a option list \<Rightarrow> nat \<Rightarrow> 'a \<Rightarrow> 'a option list" where
  "array_set xs i v =
     (if i < length xs then xs[i := Some v]
      else xs @ replicate (i - length xs) None @ [Some v])"

text \<open>
  The last loop of \<open>createFolds\<close>: each range goes to the entry of the line of its start
  when that entry is empty or ends before the range does.
\<close>

fun reduce_folds :: "string \<Rightarrow> range list \<Rightarrow> anchor_table \<Rightarrow> anchor_table" where
  "reduce_folds str [] foldPositions = foldPositions"
| "reduce_folds str ((start, end') # folds) foldPositions =
     (let index = numLines str 0 start
      in reduce_folds str folds
           (case lookup foldPositions index of
              None \<Rightarrow> array_set foldPositions index (start, end')
            | Some r \<Rightarrow>
                if end' > snd r then array_set foldPositions index (start, end')
                else foldPositions))"

text \<open>
  The state of the extension: the full text \<open>code\<close>, the text of the view (\<open>value\<close> in the
  source), the anchor table and the folded sets. \<open>createFolds\<close> starts from the text of
  the editor with nothing folded.
\<close>

record folding =
  code :: string
  view_text :: string
  foldPositions :: anchor_table
  folded :: fold_state

definition createFolds ::
  "string \<Rightarrow> (tag list \<times> nat option list) option \<Rightarrow> (bracket list \<times> nat option list) option
   \<Rightarrow> provider list \<Rightarrow> error + folding" where
  "createFolds editor_value matchTags matchBrackets providers =
     (case collect_folds editor_value matchTags matchBrackets providers of
        Inl e \<Rightarrow> Inl e
      | Inr folds \<Rightarrow>
          Inr \<lparr>code = editor_value, view_text = editor_value,
               foldPositions = reduce_folds editor_value folds [],
               folded = init_state\<rparr>)"

subsection \<open>The text of the view\<close>

text \<open>
  \<open>update\<close> builds the text of the view from a copy of the folded ranges sorted by start
  (the sort of JavaScript is stable, as \<open>sort_key\<close> is): the text between the ranges with
  three no-break spaces (U+00A0, the string literal of the source) for each range. Only
  the text is modelled, not the line numbers and the selection that \<open>update\<close> sets as
  well.
\<close>

definition nbsp :: char where
  "nbsp = CHR 0xA0"

fun update_loop :: "string \<Rightarrow> string \<Rightarrow> int \<Rightarrow> range list \<Rightarrow> string" where
  "update_loop c v pos [] = v @ js_slice_from c pos"
| "update_loop c v pos ((start, end') # rs) =
     update_loop c (v @ js_slice c pos start @ [nbsp, nbsp, nbsp]) end' rs"

definition update :: "folding \<Rightarrow> folding" where
  "update st =
     st\<lparr>view_text := update_loop (code st) [] 0 (sort_key fst (foldedRanges (folded st)))\<rparr>"

definition fullCode :: "folding \<Rightarrow> string" where
  "fullCode st = code st"

text \<open>
  The text of the specification for the view (4.4, 3): the full text with every folded
  range replaced by a placeholder, which the specification fixes in its length only and
  which is an argument here. Replacing from the last range to the first keeps the offsets
  of the ranges still to be replaced.
\<close>

definition replace_range :: "string \<Rightarrow> range \<Rightarrow> string \<Rightarrow> string" where
  "replace_range placeholder r c = take (nat (fst r)) c @ placeholder @ drop (nat (snd r)) c"

definition replaced_text :: "string \<Rightarrow> string \<Rightarrow> range list \<Rightarrow> string" where
  "replaced_text placeholder c rs = foldr (replace_range placeholder) (sort_key fst rs) c"

subsection \<open>The markdown provider\<close>

text \<open>
  \<open>openTitles\<close> is a sparse array indexed by the level of a heading and \<open>levels\<close> is
  \<open>undefined\<close> until the first heading. Reading a hole of the array gives \<open>undefined\<close>,
  which \<open>closeTitles\<close> pushes as the start of a range all the same, so the start of a
  range of this provider is an option. \<open>trimEnd\<close> removes the white space and the line
  terminators of JavaScript that fit in one character of the model.
\<close>

record md_state =
  md_folds :: "(int option \<times> int) list"
  md_pos :: int
  openTitles :: "int \<Rightarrow> int option"
  levels :: "int option"

definition js_whitespace :: "char \<Rightarrow> bool" where
  "js_whitespace c =
     (c \<in> {CHR 0x09, CHR 0x0A, CHR 0x0B, CHR 0x0C, CHR 0x0D, CHR 0x20, CHR 0xA0})"

definition trimEnd :: "string \<Rightarrow> string" where
  "trimEnd s = rev (dropWhile js_whitespace (rev s))"

text \<open>
  \<open>closeTitles(level)\<close>: one range for each level from \<open>level\<close> up to \<open>levels\<close>; the
  comparison \<open>level <= levels\<close> is false while \<open>levels\<close> is \<open>undefined\<close>.
\<close>

definition closeTitles :: "string \<Rightarrow> md_state \<Rightarrow> int \<Rightarrow> (int option \<times> int) list" where
  "closeTitles str st level =
     (case levels st of
        None \<Rightarrow> []
      | Some lv \<Rightarrow>
          (let end' = int (length (trimEnd (js_slice str 0 (md_pos st))))
           in map (\<lambda>l. (openTitles st l, end')) [level..lv]))"

definition token_length :: "token \<Rightarrow> int" where
  "token_length t = (case t of TStr s \<Rightarrow> int (length s) | Token ty al c len \<Rightarrow> int len)"

text \<open>\<open>token.type\<close> as a condition: a string of the stream has no type.\<close>

definition has_type :: "token \<Rightarrow> bool" where
  "has_type t = (case t of TStr s \<Rightarrow> False | Token ty al c len \<Rightarrow> ty \<noteq> [])"

text \<open>
  The range of a code block, \<open>content[0].length + (content[1].content || "").length\<close> from
  the position to \<open>content[content.length - 1].length + 1\<close> before the end of the token.
  The source takes the content for an array of tokens; on a string the same expressions
  read its characters. Reading a property of \<open>undefined\<close> throws.
\<close>

definition code_range :: "content \<Rightarrow> int \<Rightarrow> int \<Rightarrow> error + (int \<times> int)" where
  "code_range c pos len =
     (case c of
        Nested toks \<Rightarrow>
          if length toks < 2 then Inl TypeError
          else Inr (pos + token_length (toks ! 0)
                      + (case toks ! 1 of
                           TStr s \<Rightarrow> 0
                         | Token ty al (Text x) l \<Rightarrow> int (length x)
                         | Token ty al (Nested xs) l \<Rightarrow> int (length xs)),
                    pos + len - token_length (last toks) - 1)
      | Text s \<Rightarrow>
          if length s < 2 then Inl TypeError
          else Inr (pos + 1 + 0, pos + len - 1 - 1))"

text \<open>
  The level of a title and the start of its range. With a first token that has a type
  (the \<open>#\<close> marks) the level is its length minus one and the range starts at the end of
  the title; otherwise the level is 0 or 1 by the first character of the underline.
\<close>

definition title_info :: "content \<Rightarrow> int \<Rightarrow> int \<Rightarrow> error + (int \<times> int)" where
  "title_info c pos len =
     (case c of
        Text s \<Rightarrow> Inl TypeError
      | Nested [] \<Rightarrow> Inl TypeError
      | Nested (token1 # rest) \<Rightarrow>
          if has_type token1 then Inr (token_length token1 - 1, pos + len)
          else (case rest of
                  [] \<Rightarrow> Inl TypeError
                | TStr s # _ \<Rightarrow> Inl TypeError
                | Token ty al (Text x) l # _ \<Rightarrow>
                    Inr (if x \<noteq> [] \<and> hd x = CHR ''='' then 0 else 1,
                         pos + token_length token1 - 1)
                | Token ty al (Nested xs) l # _ \<Rightarrow>
                    Inr (if xs \<noteq> [] \<and> hd xs = TStr ''='' then 0 else 1,
                         pos + token_length token1 - 1)))"

text \<open>The body of the loop over the tokens.\<close>

definition md_step :: "string \<Rightarrow> md_state \<Rightarrow> token \<Rightarrow> error + md_state" where
  "md_step str st t =
     (case t of
        TStr s \<Rightarrow> Inr (st\<lparr>md_pos := md_pos st + int (length s)\<rparr>)
      | Token type alias c len \<Rightarrow>
          (case (if type = ''code'' \<and> (alias = None \<or> alias = Some [])
                 then (case code_range c (md_pos st) (int len) of
                         Inl e \<Rightarrow> Inl e
                       | Inr (a, b) \<Rightarrow> Inr (st\<lparr>md_folds := md_folds st @ [(Some a, b)]\<rparr>))
                 else Inr st) of
             Inl e \<Rightarrow> Inl e
           | Inr st1 \<Rightarrow>
               (case (if type = ''title''
                      then (case title_info c (md_pos st1) (int len) of
                              Inl e \<Rightarrow> Inl e
                            | Inr (level, start) \<Rightarrow>
                                Inr (st1\<lparr>md_folds := md_folds st1 @ closeTitles str st1 level,
                                         openTitles := (openTitles st1)(level \<mapsto> start),
                                         levels := Some level\<rparr>))
                      else Inr st1) of
                  Inl e \<Rightarrow> Inl e
                | Inr st2 \<Rightarrow> Inr (st2\<lparr>md_pos := md_pos st2 + int len\<rparr>))))"

fun md_loop :: "string \<Rightarrow> md_state \<Rightarrow> token list \<Rightarrow> error + md_state" where
  "md_loop str st [] = Inr st"
| "md_loop str st (t # ts) =
     (case md_step str st t of Inl e \<Rightarrow> Inl e | Inr st' \<Rightarrow> md_loop str st' ts)"

definition markdownFolding ::
  "token list \<Rightarrow> string \<Rightarrow> string \<Rightarrow> error + (int option \<times> int) list" where
  "markdownFolding tokenList str language =
     (if language = ''markdown'' \<or> language = ''md'' then
        (case md_loop str \<lparr>md_folds = [], md_pos = 0, openTitles = Map.empty, levels = None\<rparr>
                tokenList of
           Inl e \<Rightarrow> Inl e
         | Inr st \<Rightarrow> Inr (md_folds st @ closeTitles str st 0))
      else Inr [])"

text \<open>
  The titles of the specification (4.1): the open titles are kept by level; a heading of
  level \<open>L\<close> closes every open title of level at least \<open>L\<close>, and the end of the input
  closes the titles that are still open. The level, the start and the end of a range are
  those of the source.
\<close>

record md_spec_state =
  spec_folds :: "(int option \<times> int) list"
  spec_pos :: int
  open_titles :: "(int \<times> int) list"

definition close_open_titles :: "string \<Rightarrow> md_spec_state \<Rightarrow> int \<Rightarrow> (int option \<times> int) list" where
  "close_open_titles str st level =
     (let end' = int (length (trimEnd (js_slice str 0 (spec_pos st))))
      in map (\<lambda>(l, start). (Some start, end')) (filter (\<lambda>(l, start). level \<le> l) (open_titles st)))"

definition md_spec_step :: "string \<Rightarrow> md_spec_state \<Rightarrow> token \<Rightarrow> error + md_spec_state" where
  "md_spec_step str st t =
     (case t of
        TStr s \<Rightarrow> Inr (st\<lparr>spec_pos := spec_pos st + int (length s)\<rparr>)
      | Token type alias c len \<Rightarrow>
          (case (if type = ''code'' \<and> (alias = None \<or> alias = Some [])
                 then (case code_range c (spec_pos st) (int len) of
                         Inl e \<Rightarrow> Inl e
                       | Inr (a, b) \<Rightarrow> Inr (st\<lparr>spec_folds := spec_folds st @ [(Some a, b)]\<rparr>))
                 else Inr st) of
             Inl e \<Rightarrow> Inl e
           | Inr st1 \<Rightarrow>
               (case (if type = ''title''
                      then (case title_info c (spec_pos st1) (int len) of
                              Inl e \<Rightarrow> Inl e
                            | Inr (level, start) \<Rightarrow>
                                Inr (st1\<lparr>spec_folds :=
                                           spec_folds st1 @ close_open_titles str st1 level,
                                         open_titles :=
                                           filter (\<lambda>(l, s). l < level) (open_titles st1)
                                           @ [(level, start)]\<rparr>))
                      else Inr st1) of
                  Inl e \<Rightarrow> Inl e
                | Inr st2 \<Rightarrow> Inr (st2\<lparr>spec_pos := spec_pos st2 + int len\<rparr>))))"

fun md_spec_loop :: "string \<Rightarrow> md_spec_state \<Rightarrow> token list \<Rightarrow> error + md_spec_state" where
  "md_spec_loop str st [] = Inr st"
| "md_spec_loop str st (t # ts) =
     (case md_spec_step str st t of Inl e \<Rightarrow> Inl e | Inr st' \<Rightarrow> md_spec_loop str st' ts)"

definition markdownFolding_spec ::
  "token list \<Rightarrow> string \<Rightarrow> string \<Rightarrow> error + (int option \<times> int) list" where
  "markdownFolding_spec tokenList str language =
     (if language = ''markdown'' \<or> language = ''md'' then
        (case md_spec_loop str \<lparr>spec_folds = [], spec_pos = 0, open_titles = []\<rparr> tokenList of
           Inl e \<Rightarrow> Inl e
         | Inr st \<Rightarrow> Inr (spec_folds st @ close_open_titles str st 0))
      else Inr [])"

subsection \<open>Example inputs\<close>

text \<open>
  The text of the scenario of the specification, tokenized with one block comment, and a
  language map with the delimiters of C-like block comments.
\<close>

definition scenario_text :: string where
  "scenario_text = ''A'' @ [newline] @ ''/* x'' @ [newline] @ ''y */'' @ [newline] @ ''B''"

definition scenario_tokens :: "token list" where
  "scenario_tokens =
     [TStr (''A'' @ [newline]),
      Token ''comment'' None (Text (''/* x'' @ [newline] @ ''y */'')) 9,
      TStr ([newline] @ ''B'')]"

definition c_like :: language_map where
  "c_like language = (if language = ''javascript'' then Some (''/*'', ''*/'') else None)"

text \<open>
  A text that is one unterminated block comment: the comment token of the grammar runs to
  the end of the text when the closing delimiter is missing.
\<close>

definition unterminated_text :: string where
  "unterminated_text = ''/*'' @ [newline]"

definition unterminated_tokens :: "token list" where
  "unterminated_tokens = [Token ''comment'' None (Text unterminated_text) 3]"

text \<open>
  A markdown text with the headings \<open># A\<close>, \<open>## B\<close>, \<open># C\<close> and \<open>### D\<close> and its tokens: a
  title token, with the alias \<open>important\<close>, holds the \<open>#\<close> marks as a punctuation token
  and the rest as a string.
\<close>

definition heading :: "nat \<Rightarrow> string \<Rightarrow> token" where
  "heading n title =
     Token ''title'' (Some ''important'')
       (Nested [Token ''punctuation'' None (Text (replicate n CHR ''#'')) n, TStr title])
       (n + length title)"

definition md_text :: string where
  "md_text = ''# A'' @ [newline] @ ''## B'' @ [newline] @ ''b'' @ [newline] @ ''# C'' @ [newline] @ ''### D'' @ [newline] @ ''d''"

definition md_tokens :: "token list" where
  "md_tokens = [heading 1 '' A'', TStr [newline], heading 2 '' B'', TStr ([newline] @ ''b'' @ [newline]),
     heading 1 '' C'', TStr [newline], heading 3 '' D'', TStr ([newline] @ ''d'')]"

text \<open>The markdown scenario of the specification, where no title is closed before the end.\<close>

definition md_scenario_text :: string where
  "md_scenario_text = ''# A'' @ [newline] @ ''text'' @ [newline] @ ''## B'' @ [newline] @ ''more''"

definition md_scenario_tokens :: "token list" where
  "md_scenario_tokens =
     [heading 1 '' A'', TStr ([newline] @ ''text'' @ [newline]), heading 2 '' B'',
      TStr ([newline] @ ''more'')]"

text \<open>
  A provider that returns the same ranges whatever the current folds are, as
  \<open>blockCommentFolding\<close> does, which reads the editor only.
\<close>

definition as_provider :: "range list \<Rightarrow> provider" where
  "as_provider rs folds = rs"

text \<open>
  Ranges in ascending order inside a text with nothing before the position \<open>k\<close>: each
  range starts at or after the end of the one before and ends inside the text.
\<close>

fun chain :: "string \<Rightarrow> int \<Rightarrow> range list \<Rightarrow> bool" where
  "chain c k [] = (0 \<le> k \<and> k \<le> int (length c))"
| "chain c k ((s, e) # rs) = (0 \<le> k \<and> k \<le> s \<and> s \<le> e \<and> chain c e rs)"

text \<open>
  The state of the scenario after \<open>createFolds\<close>, with the block comment provider, and
  after folding line 2.
\<close>

definition scenario_created :: folding where
  "scenario_created =
     \<lparr>code = scenario_text, view_text = scenario_text,
      foldPositions = [None, None, Some (4, 9)], folded = init_state\<rparr>"

definition scenario_folded :: folding where
  "scenario_folded =
     scenario_created\<lparr>folded := \<lparr>foldedLines = [2], foldedRanges = [(4, 9)]\<rparr>\<rparr>"

text \<open>
  A token stream is regular for the provider when each title is at most one level below
  the title before it and the first title has level 0: then no level is skipped and no
  closed title is left behind in \<open>openTitles\<close>.
\<close>

definition title_ok :: "md_state \<Rightarrow> token \<Rightarrow> bool" where
  "title_ok st t =
     (case t of
        TStr s \<Rightarrow> True
      | Token type alias c len \<Rightarrow>
          if type = ''title'' then
            (case title_info c (md_pos st) (int len) of
               Inl e \<Rightarrow> True
             | Inr (level, start) \<Rightarrow>
                 0 \<le> level \<and> level \<le> (case levels st of None \<Rightarrow> 0 | Some lv \<Rightarrow> lv + 1))
          else True)"

fun md_regular :: "string \<Rightarrow> md_state \<Rightarrow> token list \<Rightarrow> bool" where
  "md_regular str st [] = True"
| "md_regular str st (t # ts) =
     (title_ok st t \<and>
      (case md_step str st t of Inl e \<Rightarrow> True | Inr st' \<Rightarrow> md_regular str st' ts))"

text \<open>
  The state of the source and the state of the specification agree: the levels 0 to
  \<open>levels\<close> are the open titles, with the starts stored in \<open>openTitles\<close>.
\<close>

definition md_agree :: "md_state \<Rightarrow> md_spec_state \<Rightarrow> bool" where
  "md_agree st sp =
     (md_pos st = spec_pos sp \<and> md_folds st = spec_folds sp \<and>
      (case levels st of
         None \<Rightarrow> open_titles sp = []
       | Some lv \<Rightarrow> 0 \<le> lv \<and>
           open_titles sp = map (\<lambda>l. (l, the (openTitles st l))) [0..lv] \<and>
           (\<forall>l \<in> set [0..lv]. openTitles st l \<noteq> None)))"

section \<open>Verified properties\<close>

subsection \<open>Offset translation\<close>

lemma hidden_Nil: "hidden [] p = False"
  by (simp add: hidden_def)

lemma hidden_Cons: "hidden ((s, e) # rs) p = ((s < p \<and> p < e) \<or> hidden rs p)"
  by (simp add: hidden_def)

lemma shrink_Nil: "shrink [] p = 0"
  by (simp add: shrink_def)

lemma shrink_Cons:
  "shrink ((s, e) # rs) p = (if s < p \<and> e \<le> p then e - s - 3 else 0) + shrink rs p"
  by (simp add: shrink_def)

lemma getPosition_loop_char:
  "getPosition_loop p res rs = (if hidden rs p then - 1 else res - shrink rs p)"
proof (induction rs arbitrary: res)
  case Nil
  show ?case by (simp add: hidden_Nil shrink_Nil)
next
  case (Cons r rs)
  obtain s e where r: "r = (s, e)" by (cases r)
  show ?case unfolding r by (simp add: Cons.IH hidden_Cons shrink_Cons)
qed

lemma getPosition_char:
  "getPosition rs p = (if hidden rs p then - 1 else p - shrink rs p)"
  by (simp add: getPosition_def getPosition_loop_char)

lemma toViewOffset_walk_char:
  "toViewOffset_walk p res rs = (if hidden rs p then - 1 else res - shrink rs p)"
proof (induction rs arbitrary: res)
  case Nil
  show ?case by (simp add: hidden_Nil shrink_Nil)
next
  case (Cons r rs)
  obtain s e where r: "r = (s, e)" by (cases r)
  show ?case unfolding r by (simp add: Cons.IH hidden_Cons shrink_Cons)
qed

lemma hidden_mset: "mset rs' = mset rs \<Longrightarrow> hidden rs' p = hidden rs p"
  using mset_eq_setD[of rs' rs] by (simp add: hidden_def)

lemma shrink_as_mset:
  "shrink rs p = sum_mset (image_mset (\<lambda>(s, e). e - s - 3) (filter_mset (\<lambda>(s, e). s < p \<and> e \<le> p) (mset rs)))"
  unfolding shrink_def by (simp only: mset_filter[symmetric] mset_map[symmetric] sum_mset_sum_list)

lemma shrink_mset: "mset rs' = mset rs \<Longrightarrow> shrink rs' p = shrink rs p"
  by (simp only: shrink_as_mset)

lemma shrink_valid:
  assumes "\<forall>(s, e) \<in> set rs. s < e"
  shows "shrink rs p = (\<Sum>(s, e) \<leftarrow> filter (\<lambda>(s, e). e \<le> p) rs. e - s - 3)"
proof -
  have "filter (\<lambda>(s, e). s < p \<and> e \<le> p) rs = filter (\<lambda>(s, e). e \<le> p) rs"
    by (rule filter_cong) (use assms in auto)
  then show ?thesis by (simp add: shrink_def)
qed

lemma stated_valid:
  assumes "\<forall>(s, e) \<in> set rs. s < e"
  shows "toViewOffset_stated rs p = (if hidden rs p then - 1 else p - shrink rs p)"
proof -
  have "filter (\<lambda>(s, e). s < p \<and> e \<le> p) rs = filter (ends_before p) rs"
    by (rule filter_cong) (use assms in \<open>auto simp: ends_before_def\<close>)
  then show ?thesis by (simp add: toViewOffset_stated_def shrink_def)
qed

lemma unterminated_createFolds:
  "createFolds unterminated_text None None
     [as_provider (blockCommentFolding unterminated_tokens unterminated_text ''javascript'' c_like)]
   = Inr \<lparr>code = unterminated_text, view_text = unterminated_text,
          foldPositions = [None, Some (2, 1)], folded = init_state\<rparr>"
proof -
  have b: "blockCommentFolding unterminated_tokens unterminated_text ''javascript'' c_like
      = [(2, 1)]"
    by (simp add: blockCommentFolding_def unterminated_tokens_def unterminated_text_def
        aliasType_def isMultiline_def js_slice_def c_like_def starts_at_def)
  have n: "numLines unterminated_text 0 2 = 1"
    by (simp add: unterminated_text_def numLines_def numLines_loop.simps indexOf_def newline_def)
  show ?thesis
    by (simp add: createFolds_def collect_folds_def as_provider_def b n lookup_def array_set_def)
qed

text \<open>
  Claim C10, as amended. \<open>getPosition\<close> depends only on which ranges are folded, not on
  the order in which the set enumerates them: on any two enumerations of the same ranges
  the walk of the code, in insertion order, returns what the walk of the specification
  returns on the ranges sorted by start. The value is \<open>-1\<close> when a range strictly contains
  the offset, and otherwise the offset minus \<open>e - s - 3\<close> for each range with \<open>s < p\<close> and
  \<open>e \<le> p\<close>. When every folded range has \<open>s < e\<close> these are the ranges with \<open>e \<le> p\<close>, and
  the value is the one of the closed form.
\<close>

theorem getPosition_order_independent:
  assumes "mset rs' = mset rs"
  shows "getPosition rs' p = toViewOffset_spec rs p
    \<and> getPosition rs' p = getPosition rs p
    \<and> getPosition rs p = (if hidden rs p then - 1 else p - shrink rs p)
    \<and> ((\<forall>(s, e) \<in> set rs. s < e) \<longrightarrow>
         shrink rs p = (\<Sum>(s, e) \<leftarrow> filter (\<lambda>(s, e). e \<le> p) rs. e - s - 3))
    \<and> ((\<forall>(s, e) \<in> set rs. s < e) \<longrightarrow> getPosition rs' p = toViewOffset_stated rs p)"
proof -
  have 1: "hidden rs' p = hidden rs p" "shrink rs' p = shrink rs p"
    using assms by (rule hidden_mset, rule shrink_mset)
  have s: "mset (sort_key fst rs) = mset rs"
    by simp
  have 2: "hidden (sort_key fst rs) p = hidden rs p" "shrink (sort_key fst rs) p = shrink rs p"
    using s by (rule hidden_mset, rule shrink_mset)
  have a: "getPosition rs' p = getPosition rs p"
    by (simp only: getPosition_char 1)
  have b: "toViewOffset_spec rs p = getPosition rs p"
    by (simp only: getPosition_char toViewOffset_spec_def toViewOffset_walk_char 2)
  show ?thesis
  proof (intro conjI impI)
    show "getPosition rs' p = toViewOffset_spec rs p"
      using a b by simp
    show "getPosition rs' p = getPosition rs p"
      by (rule a)
    show "getPosition rs p = (if hidden rs p then - 1 else p - shrink rs p)"
      by (rule getPosition_char)
  next
    assume "\<forall>(s, e) \<in> set rs. s < e"
    then show "shrink rs p = (\<Sum>(s, e) \<leftarrow> filter (\<lambda>(s, e). e \<le> p) rs. e - s - 3)"
      by (rule shrink_valid)
  next
    assume "\<forall>(s, e) \<in> set rs. s < e"
    then have "toViewOffset_stated rs p = (if hidden rs p then - 1 else p - shrink rs p)"
      by (rule stated_valid)
    then show "getPosition rs' p = toViewOffset_stated rs p"
      using a by (simp only: getPosition_char)
  qed
qed

theorem getPosition_order_independent_witness:
  "mset ([(10, 20), (0, 5)] :: range list) = mset [(0, 5), (10, 20)]
   \<and> getPosition [(10, 20), (0, 5)] 25 = 16
   \<and> toViewOffset_spec [(0, 5), (10, 20)] 25 = 16
   \<and> toViewOffset_stated [(0, 5), (10, 20)] 25 = 16
   \<and> getPosition [(10, 20), (0, 5)] 15 = - 1"
proof -
  have m: "mset ([(10, 20), (0, 5)] :: range list) = mset [(0, 5), (10, 20)]"
    by (simp add: add_mset_commute)
  have g: "getPosition [(10, 20), (0, 5)] 25 = 16" "getPosition [(10, 20), (0, 5)] 15 = - 1"
    by (simp_all add: getPosition_def)
  show ?thesis
    using m g getPosition_order_independent[OF m, of 25] by simp
qed

text \<open>
  The closed form of the claim, which counts every range with \<open>e \<le> p\<close>, is not what the
  two walks return when a folded range has its end before its start. The block comment
  provider gives the range \<open>(2, 1)\<close> for an unterminated comment \<open>/*\<close> followed by a line
  feed, \<open>createFolds\<close> makes it the anchor of line 1, and after folding it both walks map
  the offset 2 to 2, as the range does not start before 2, while the closed form gives
  \<open>2 - (1 - 2 - 3) = 6\<close>.
\<close>

theorem getPosition_stated_counterexample:
  "createFolds unterminated_text None None
     [as_provider (blockCommentFolding unterminated_tokens unterminated_text ''javascript'' c_like)]
   = Inr \<lparr>code = unterminated_text, view_text = unterminated_text,
          foldPositions = [None, Some (2, 1)], folded = init_state\<rparr>
   \<and> folding_toggleFold [None, Some (2, 1)] 1 None init_state
       = Inr (True, \<lparr>foldedLines = [1], foldedRanges = [(2, 1)]\<rparr>)
   \<and> getPosition [(2, 1)] 2 = 2
   \<and> toViewOffset_spec [(2, 1)] 2 = 2
   \<and> toViewOffset_stated [(2, 1)] 2 = 6
   \<and> getPosition [(2, 1)] 2 \<noteq> toViewOffset_stated [(2, 1)] 2"
proof -
  have 1: "folding_toggleFold [None, Some (2, 1)] 1 None init_state
       = Inr (True, \<lparr>foldedLines = [1], foldedRanges = [(2, 1)]\<rparr>)"
    by (simp add: folding_toggleFold_def loose_neq_def lookup_def toggleFold_def init_state_def
        addFold_def)
  have 2: "getPosition [(2, 1)] 2 = 2"
    by (simp add: getPosition_def)
  have 3: "toViewOffset_spec [(2, 1)] 2 = 2"
    by (simp add: toViewOffset_spec_def)
  have 4: "toViewOffset_stated [(2, 1)] 2 = 6"
    by (simp add: toViewOffset_stated_def hidden_def ends_before_def)
  show ?thesis
    using unterminated_createFolds 1 2 3 4 by simp
qed

lemma non_overlapping_Cons:
  "non_overlapping (r # rs) = ((\<forall>r' \<in> set rs. disjoint_ranges r r') \<and> non_overlapping rs)"
  by (simp add: non_overlapping_def)

lemma sum_len_card:
  "non_overlapping rs \<Longrightarrow> \<forall>(s, e) \<in> set rs. s < e \<Longrightarrow>
   (\<Sum>(s, e) \<leftarrow> rs. e - s) = int (card (\<Union>(s, e) \<in> set rs. {s..<e}))"
proof (induction rs)
  case Nil
  then show ?case by simp
next
  case (Cons r rs)
  obtain s e where r: "r = (s, e)" by (cases r)
  let ?U = "\<Union>(s, e) \<in> set rs. {s..<e}"
  have fin: "finite ?U" by auto
  have d: "\<forall>r' \<in> set rs. disjoint_ranges (s, e) r'" and no: "non_overlapping rs"
    using Cons.prems(1) by (simp_all add: non_overlapping_Cons r)
  have dis: "{s..<e} \<inter> ?U = {}"
  proof (rule ccontr)
    assume "{s..<e} \<inter> ?U \<noteq> {}"
    then obtain x s' e' where x: "s \<le> x" "x < e" "(s', e') \<in> set rs" "s' \<le> x" "x < e'"
      by auto
    from d x(3) have "e \<le> s' \<or> e' \<le> s" by (auto simp: disjoint_ranges_def)
    with x show False by linarith
  qed
  have c: "card ({s..<e} \<union> ?U) = card {s..<e} + card ?U"
    using fin dis by (simp add: card_Un_disjoint)
  have v: "\<forall>(s, e) \<in> set rs. s < e" "s < e"
    using Cons.prems(2) by (simp_all add: r)
  have ih: "(\<Sum>(s, e) \<leftarrow> rs. e - s) = int (card ?U)"
    using Cons.IH[OF no v(1)] .
  have "(\<Union>(s, e) \<in> set (r # rs). {s..<e}) = {s..<e} \<union> ?U"
    by (simp add: r)
  then show ?case using c ih v(2) by (simp add: r)
qed

lemma shrink_le:
  assumes "non_overlapping rs" "valid_ranges rs" "0 \<le> p"
  shows "shrink rs p \<le> p"
proof -
  let ?fs = "filter (\<lambda>(s, e). s < p \<and> e \<le> p) rs"
  have no: "non_overlapping ?fs"
    using assms(1) by (simp add: non_overlapping_def sorted_wrt_filter)
  have v: "\<forall>(s, e) \<in> set ?fs. s < e"
    using assms(2) by (auto simp: valid_ranges_def)
  have sub: "(\<Union>(s, e) \<in> set ?fs. {s..<e}) \<subseteq> {0..<p}"
  proof
    fix x assume "x \<in> (\<Union>(s, e) \<in> set ?fs. {s..<e})"
    then obtain s e where "(s, e) \<in> set rs" "e \<le> p" "s \<le> x" "x < e" by auto
    moreover from this assms(2) have "0 \<le> s" by (auto simp: valid_ranges_def)
    ultimately show "x \<in> {0..<p}" by simp
  qed
  have "card (\<Union>(s, e) \<in> set ?fs. {s..<e}) \<le> card {0..<p}"
    by (rule card_mono[OF _ sub]) simp
  then have "(\<Sum>(s, e) \<leftarrow> ?fs. e - s) \<le> p"
    using sum_len_card[OF no v] assms(3) by simp
  moreover have "(\<Sum>(s, e) \<leftarrow> ?fs. e - s - 3) \<le> (\<Sum>(s, e) \<leftarrow> ?fs. e - s)"
    by (rule sum_list_mono) auto
  ultimately show ?thesis by (simp add: shrink_def)
qed

text \<open>
  Claim C2, as amended. \<open>getPosition\<close> returns the sentinel \<open>-1\<close> whenever some folded
  range \<open>(s, e)\<close> has \<open>s < p < e\<close>, and otherwise returns \<open>p\<close> minus \<open>e - s - 3\<close> for each
  folded range with \<open>s < p\<close> and \<open>e \<le> p\<close>. That value is itself never \<open>-1\<close>, so the
  sentinel is returned exactly for hidden offsets, when the folded ranges are pairwise
  non-overlapping with \<open>0 \<le> s < e\<close> and \<open>p\<close> is not negative.
\<close>

theorem getPosition_hidden:
  "(hidden rs p \<longrightarrow> getPosition rs p = - 1)
   \<and> (\<not> hidden rs p \<longrightarrow> getPosition rs p = p - shrink rs p)
   \<and> (non_overlapping rs \<and> valid_ranges rs \<and> 0 \<le> p \<longrightarrow>
        (getPosition rs p = - 1 \<longleftrightarrow> hidden rs p))"
proof (intro conjI impI)
  assume "hidden rs p"
  then show "getPosition rs p = - 1" by (simp add: getPosition_char)
next
  assume "\<not> hidden rs p"
  then show "getPosition rs p = p - shrink rs p" by (simp add: getPosition_char)
next
  assume "non_overlapping rs \<and> valid_ranges rs \<and> 0 \<le> p"
  then have "shrink rs p \<le> p" by (simp add: shrink_le)
  then show "(getPosition rs p = - 1) = hidden rs p" by (simp add: getPosition_char)
qed

theorem getPosition_hidden_witness:
  "non_overlapping [(2, 5), (7, 9)] \<and> valid_ranges [(2, 5), (7, 9)] \<and> (0::int) \<le> 6
   \<and> \<not> hidden [(2, 5), (7, 9)] 6 \<and> getPosition [(2, 5), (7, 9)] 6 = 6
   \<and> hidden [(2, 5), (7, 9)] 8 \<and> getPosition [(2, 5), (7, 9)] 8 = - 1"
  using getPosition_hidden[of "[(2, 5), (7, 9)]" 6] getPosition_hidden[of "[(2, 5), (7, 9)]" 8]
  by (simp add: non_overlapping_def disjoint_ranges_def valid_ranges_def hidden_def shrink_def)

text \<open>
  Without that condition the sentinel is ambiguous. For the text
  \<open>"{\\n{\\nxxxxxxx}}"\<close> the bracket pairs give the anchors \<open>(1, 12)\<close> on line 1 and
  \<open>(3, 11)\<close> on line 2; folding line 1 and then line 2 leaves both ranges in the set, and
  offset 12, which no range strictly contains, is mapped to \<open>12 - 8 - 5 = -1\<close>.
\<close>

theorem getPosition_sentinel_counterexample:
  "toggles [None, Some (1, 12), Some (3, 11)] [1, 2] init_state
     = Inr \<lparr>foldedLines = [1, 2], foldedRanges = [(1, 12), (3, 11)]\<rparr>
   \<and> getPosition [(1, 12), (3, 11)] 12 = - 1
   \<and> \<not> hidden [(1, 12), (3, 11)] 12"
  by (simp add: toggleFold_def lookup_def init_state_def addFold_def getPosition_def hidden_def)

subsection \<open>The merge of addFold\<close>

text \<open>
  When every range that \<open>addFold\<close> absorbs ends inside the added range, adding a range
  comes to removing the ranges whose start it covers and inserting the range itself.
\<close>

lemma addFold_loop_absorb_expanded:
  "absorbs (s, e) r \<Longrightarrow> addFold_loop s e True (r # rs) = addFold_loop s e True rs"
  by (cases r) (simp add: absorbs_def)

lemma addFold_loop_absorb_first:
  "absorbs (s, e) r \<Longrightarrow> addFold_loop s e False (r # rs) =
     ((s, max e (snd r)) # fst (addFold_loop s e True rs), snd (addFold_loop s e True rs))"
  by (cases r) (auto simp: absorbs_def split_beta max_def)

lemma addFold_loop_keep:
  "\<not> absorbs (s, e) r \<Longrightarrow> addFold_loop s e x (r # rs) =
     (r # fst (addFold_loop s e x rs), snd (addFold_loop s e x rs))"
  by (cases r) (auto simp: absorbs_def split_beta)

lemma addFold_loop_flag:
  "snd (addFold_loop s e x rs) = (x \<or> (\<exists>r \<in> set rs. absorbs (s, e) r))"
proof (induction rs arbitrary: x)
  case Nil
  show ?case by simp
next
  case (Cons r rs)
  show ?case
  proof (cases "absorbs (s, e) r")
    case True
    then show ?thesis
      by (cases x) (simp_all add: addFold_loop_absorb_expanded addFold_loop_absorb_first Cons.IH
          del: addFold_loop.simps)
  next
    case False
    then show ?thesis
      by (simp add: addFold_loop_keep Cons.IH del: addFold_loop.simps)
  qed
qed

lemma addFold_loop_set:
  assumes "\<forall>r \<in> set rs. absorbs (s, e) r \<longrightarrow> snd r \<le> e"
  shows "set (fst (addFold_loop s e x rs)) =
     {r \<in> set rs. \<not> absorbs (s, e) r} \<union>
     (if \<not> x \<and> (\<exists>r \<in> set rs. absorbs (s, e) r) then {(s, e)} else {})"
  using assms
proof (induction rs arbitrary: x)
  case Nil
  show ?case by simp
next
  case (Cons r rs)
  have ih: "set (fst (addFold_loop s e y rs)) =
     {r \<in> set rs. \<not> absorbs (s, e) r} \<union>
     (if \<not> y \<and> (\<exists>r \<in> set rs. absorbs (s, e) r) then {(s, e)} else {})" for y
    using Cons.IH Cons.prems by simp
  show ?case
  proof (cases "absorbs (s, e) r")
    case True
    then have le: "max e (snd r) = e"
      using Cons.prems by simp
    show ?thesis
    proof (cases x)
      case True
      with \<open>absorbs (s, e) r\<close> show ?thesis
        by (auto simp: addFold_loop_absorb_expanded ih[of True] simp del: addFold_loop.simps)
    next
      case False
      with \<open>absorbs (s, e) r\<close> show ?thesis
        by (auto simp: addFold_loop_absorb_first le ih[of True] simp del: addFold_loop.simps)
    qed
  next
    case False
    then show ?thesis
      by (auto simp: addFold_loop_keep ih[of x] simp del: addFold_loop.simps)
  qed
qed

lemma addFold_set:
  assumes "\<forall>x \<in> set rs. absorbs r x \<longrightarrow> snd x \<le> snd r"
  shows "set (addFold r rs) = insert r {x \<in> set rs. \<not> absorbs r x}"
proof -
  obtain s e where r: "r = (s, e)" by (cases r)
  have a: "\<forall>x \<in> set rs. absorbs (s, e) x \<longrightarrow> snd x \<le> e"
    using assms by (simp add: r)
  show ?thesis
    using addFold_loop_set[OF a, of False] addFold_loop_flag[of s e False rs]
    by (auto simp: addFold_def r split_beta)
qed

lemma addFold_loop_distinct:
  assumes "distinct rs" "s < e" "\<forall>r \<in> set rs. absorbs (s, e) r \<longrightarrow> snd r \<le> e"
  shows "distinct (fst (addFold_loop s e x rs))"
  using assms
proof (induction rs arbitrary: x)
  case Nil
  show ?case by simp
next
  case (Cons r rs)
  have a: "\<forall>r \<in> set rs. absorbs (s, e) r \<longrightarrow> snd r \<le> e" and d: "distinct rs" "r \<notin> set rs"
    using Cons.prems by simp_all
  have ih: "distinct (fst (addFold_loop s e y rs))" for y
    using Cons.IH[OF d(1) Cons.prems(2) a] .
  have st: "set (fst (addFold_loop s e y rs)) =
     {r \<in> set rs. \<not> absorbs (s, e) r} \<union>
     (if \<not> y \<and> (\<exists>r \<in> set rs. absorbs (s, e) r) then {(s, e)} else {})" for y
    by (rule addFold_loop_set[OF a])
  have abs: "absorbs (s, e) (s, e)" using Cons.prems(2) by (simp add: absorbs_def)
  show ?case
  proof (cases "absorbs (s, e) r")
    case True
    then have le: "max e (snd r) = e" using Cons.prems(3) by simp
    show ?thesis
    proof (cases x)
      case True
      with \<open>absorbs (s, e) r\<close> show ?thesis
        by (simp add: addFold_loop_absorb_expanded ih del: addFold_loop.simps)
    next
      case False
      have "(s, e) \<notin> set (fst (addFold_loop s e True rs))"
        using abs by (simp add: st)
      with False \<open>absorbs (s, e) r\<close> show ?thesis
        by (simp add: addFold_loop_absorb_first le ih del: addFold_loop.simps)
    qed
  next
    case False
    have "r \<notin> set (fst (addFold_loop s e x rs))"
      using d(2) False abs by (auto simp: st)
    with False show ?thesis
      by (simp add: addFold_loop_keep ih del: addFold_loop.simps)
  qed
qed

lemma addFold_distinct:
  assumes "distinct rs" "fst r < snd r" "\<forall>x \<in> set rs. absorbs r x \<longrightarrow> snd x \<le> snd r"
  shows "distinct (addFold r rs)"
proof -
  obtain s e where r: "r = (s, e)" by (cases r)
  have a: "\<forall>x \<in> set rs. absorbs (s, e) x \<longrightarrow> snd x \<le> e" and v: "s < e"
    using assms by (simp_all add: r)
  have d: "distinct (fst (addFold_loop s e False rs))"
    by (rule addFold_loop_distinct[OF assms(1) v a])
  have abs: "absorbs (s, e) (s, e)" using v by (simp add: absorbs_def)
  have "(s, e) \<notin> set (fst (addFold_loop s e False rs))" if "\<not> snd (addFold_loop s e False rs)"
    using that abs by (simp add: addFold_loop_set[OF a] addFold_loop_flag)
  with d show ?thesis
    by (auto simp: addFold_def r split_beta)
qed

subsection \<open>Anchor tables and the unfold branch\<close>

lemma lookup_Some: "lookup T l = Some r \<longleftrightarrow> l < length T \<and> T ! l = Some r"
  by (simp add: lookup_def)

lemma table_ok_valid:
  "table_ok T \<Longrightarrow> lookup T l = Some r \<Longrightarrow> fst r < snd r"
  by (auto simp: table_ok_def lookup_Some)

lemma table_ok_less:
  "table_ok T \<Longrightarrow> lookup T l = Some r \<Longrightarrow> lookup T l' = Some r' \<Longrightarrow> l < l' \<Longrightarrow>
   fst r < fst r' \<and> (snd r \<le> fst r' \<or> snd r' \<le> snd r)"
  unfolding table_ok_def lookup_Some by blast

lemma table_ok_start_inj:
  assumes "table_ok T" "lookup T l = Some r" "lookup T l' = Some r'" "fst r = fst r'"
  shows "l = l'"
proof (rule ccontr)
  assume "l \<noteq> l'"
  then consider "l < l'" | "l' < l" by linarith
  then show False
  proof cases
    case 1
    from table_ok_less[OF assms(1,2,3) 1] assms(4) show False by simp
  next
    case 2
    from table_ok_less[OF assms(1,3,2) 2] assms(4) show False by simp
  qed
qed

lemma table_ok_nested:
  assumes "table_ok T" "lookup T l = Some r" "lookup T l' = Some r'" "fst r < fst r'"
  shows "snd r \<le> fst r' \<or> snd r' \<le> snd r"
proof -
  have "l \<noteq> l'" using assms(2,3,4) by auto
  then consider "l < l'" | "l' < l" by linarith
  then show ?thesis
  proof cases
    case 1
    from table_ok_less[OF assms(1,2,3) 1] show ?thesis by simp
  next
    case 2
    from table_ok_less[OF assms(1,3,2) 2] assms(4) show ?thesis by simp
  qed
qed

lemma table_ok_laminar: "table_ok T \<Longrightarrow> laminar (line_ranges T ls)"
  unfolding laminar_def line_ranges_def
  by (auto dest: table_ok_valid table_ok_start_inj table_ok_nested)

lemma laminar_subset: "laminar R \<Longrightarrow> S \<subseteq> R \<Longrightarrow> laminar S"
  unfolding laminar_def by blast

lemma line_ranges_mono: "set ls \<subseteq> set ls' \<Longrightarrow> line_ranges T ls \<subseteq> line_ranges T ls'"
  by (auto simp: line_ranges_def)

lemma laminar_absorbs_le:
  assumes "laminar R" "r \<in> R" "x \<in> R" "absorbs r x"
  shows "snd x \<le> snd r"
proof (cases "fst r = fst x")
  case True
  with assms(1,2,3) have "r = x" unfolding laminar_def by blast
  then show ?thesis by simp
next
  case False
  with assms(4) have "fst r < fst x" "fst x < snd r" by (simp_all add: absorbs_def)
  with assms(1,2,3) show ?thesis unfolding laminar_def by fastforce
qed

lemma addFold_laminar:
  assumes "laminar R" "r \<in> R" "set rs \<subseteq> R" "distinct rs"
  shows "set (addFold r rs) = insert r {x \<in> set rs. \<not> absorbs r x}"
    and "distinct (addFold r rs)"
proof -
  have a: "\<forall>x \<in> set rs. absorbs r x \<longrightarrow> snd x \<le> snd r"
    using assms(1,2,3) laminar_absorbs_le by blast
  have v: "fst r < snd r" using assms(1,2) unfolding laminar_def by blast
  show "set (addFold r rs) = insert r {x \<in> set rs. \<not> absorbs r x}"
    by (rule addFold_set[OF a])
  show "distinct (addFold r rs)"
    by (rule addFold_distinct[OF assms(4) v a])
qed

lemma replay_Nil: "replay [] rs = rs"
  by (simp add: replay_def)

lemma replay_Cons: "replay (p # ps) rs = replay ps (addFold p rs)"
  by (simp add: replay_def)

lemma replay_append: "replay (ps @ qs) rs = replay qs (replay ps rs)"
  by (simp add: replay_def)

lemma replay_laminar:
  assumes "laminar R" "set ps \<subseteq> R"
  shows "set rs \<subseteq> R \<Longrightarrow> distinct rs \<Longrightarrow>
    set (replay ps rs) \<subseteq> set rs \<union> set ps \<and> distinct (replay ps rs)"
  using assms(2)
proof (induction ps arbitrary: rs)
  case Nil
  then show ?case by (simp add: replay_Nil)
next
  case (Cons p ps)
  have p: "p \<in> R" "set ps \<subseteq> R" using Cons.prems(3) by simp_all
  have s: "set (addFold p rs) = insert p {x \<in> set rs. \<not> absorbs p x}"
    and d: "distinct (addFold p rs)"
    using addFold_laminar[OF assms(1) p(1) Cons.prems(1,2)] by simp_all
  have sub: "set (addFold p rs) \<subseteq> R" using s p(1) Cons.prems(1) by auto
  from Cons.IH[OF sub d p(2)] s show ?case
    by (auto simp: replay_Cons)
qed

lemma readd_replay:
  "anchored T ls \<Longrightarrow> readd T s ls rs = Inr (replay (later_ranges T s ls) rs)"
proof (induction ls arbitrary: rs)
  case Nil
  show ?case by (simp add: later_ranges_def replay_Nil)
next
  case (Cons l ls)
  then obtain r where r: "lookup T l = Some r" and a: "anchored T ls"
    by (auto simp: anchored_def)
  show ?case
    using Cons.IH[OF a] r by (simp add: later_ranges_def replay_Cons)
qed

lemma unfold_loop_find:
  "unfold_loop T s ls passed rs =
     (case List.find (\<lambda>r. fst r = s) rs of
        None \<Rightarrow> Inr (passed @ rs)
      | Some r \<Rightarrow> readd T s ls (passed @ remove1 r rs))"
proof (induction rs arbitrary: passed)
  case Nil
  show ?case by simp
next
  case (Cons r rs)
  show ?case
  proof (cases "s = fst r")
    case True
    then show ?thesis by simp
  next
    case False
    then have "List.find (\<lambda>r. fst r = s) (r # rs) = List.find (\<lambda>r. fst r = s) rs"
      by auto
    moreover have "\<And>x. List.find (\<lambda>r. fst r = s) rs = Some x \<Longrightarrow> x \<noteq> r"
      using False by (auto simp: find_Some_iff)
    ultimately show ?thesis using False
      by (auto simp: Cons.IH split: option.splits)
  qed
qed

lemma later_ranges_subset:
  "anchored T ls \<Longrightarrow> set (later_ranges T s ls) \<subseteq> line_ranges T ls"
  by (auto simp: later_ranges_def line_ranges_def anchored_def)

lemma find_start_laminar:
  assumes "laminar R" "set rs \<subseteq> R" "r \<in> R"
  shows "List.find (\<lambda>x. fst x = fst r) rs = (if r \<in> set rs then Some r else None)"
proof (cases "List.find (\<lambda>x. fst x = fst r) rs")
  case None
  then have "r \<notin> set rs" by (cases r) (auto simp: find_None_iff)
  with None show ?thesis by simp
next
  case (Some x)
  then have "x \<in> set rs" "fst x = fst r"
    by (auto simp: find_Some_iff)
  with assms have "x = r" unfolding laminar_def by blast
  with Some \<open>x \<in> set rs\<close> show ?thesis by simp
qed

lemma toggleFold_fold:
  "lookup T l = Some r \<Longrightarrow> l \<notin> set (foldedLines st) \<Longrightarrow>
   toggleFold T l st =
     Inr \<lparr>foldedLines = foldedLines st @ [l], foldedRanges = addFold r (foldedRanges st)\<rparr>"
  by (simp add: toggleFold_def)

lemma toggleFold_unfold:
  assumes "table_ok T" "consistent T st" "lookup T l = Some r" "l \<in> set (foldedLines st)"
  shows "toggleFold T l st =
     Inr \<lparr>foldedLines = removeAll l (foldedLines st),
         foldedRanges =
           (if r \<in> set (foldedRanges st)
            then replay (later_ranges T (fst r) (removeAll l (foldedLines st)))
                   (remove1 r (foldedRanges st))
            else foldedRanges st)\<rparr>"
proof -
  let ?R = "line_ranges T (foldedLines st)"
  have lam: "laminar ?R" by (rule table_ok_laminar[OF assms(1)])
  have sub: "set (foldedRanges st) \<subseteq> ?R" using assms(2) by (simp add: consistent_def)
  have r: "r \<in> ?R" using assms(3,4) by (auto simp: line_ranges_def)
  have anc: "anchored T (removeAll l (foldedLines st))"
    using assms(2) by (simp add: consistent_def anchored_def)
  have f: "List.find (\<lambda>x. fst x = fst r) (foldedRanges st) =
      (if r \<in> set (foldedRanges st) then Some r else None)"
    by (rule find_start_laminar[OF lam sub r])
  show ?thesis
    using assms(3,4) by (simp add: toggleFold_def Let_def unfold_loop_find f readd_replay[OF anc])
qed

lemma consistent_init: "consistent T init_state"
  by (simp add: consistent_def init_state_def anchored_def)

lemma toggleFold_consistent:
  assumes "table_ok T" "consistent T st" "lookup T l = Some r"
  shows "\<exists>st'. toggleFold T l st = Inr st' \<and> consistent T st'"
proof (cases "l \<in> set (foldedLines st)")
  case False
  let ?ls = "foldedLines st @ [l]"
  let ?R = "line_ranges T ?ls"
  have lam: "laminar ?R" by (rule table_ok_laminar[OF assms(1)])
  have r: "r \<in> ?R" using assms(3) by (auto simp: line_ranges_def)
  have sub: "set (foldedRanges st) \<subseteq> ?R"
    using assms(2) line_ranges_mono[of "foldedLines st" ?ls T] by (auto simp: consistent_def)
  have d: "distinct (foldedRanges st)" using assms(2) by (simp add: consistent_def)
  have s: "set (addFold r (foldedRanges st)) \<subseteq> ?R"
    using addFold_laminar(1)[OF lam r sub d] r sub by auto
  have "consistent T \<lparr>foldedLines = ?ls, foldedRanges = addFold r (foldedRanges st)\<rparr>"
    using assms(2,3) False s addFold_laminar(2)[OF lam r sub d]
    by (simp add: consistent_def anchored_def)
  then show ?thesis using toggleFold_fold[OF assms(3) False] by simp
next
  case True
  let ?ls = "removeAll l (foldedLines st)"
  let ?R = "line_ranges T (foldedLines st)"
  let ?R' = "line_ranges T ?ls"
  have lam: "laminar ?R" by (rule table_ok_laminar[OF assms(1)])
  have lam': "laminar ?R'" by (rule table_ok_laminar[OF assms(1)])
  have sub: "set (foldedRanges st) \<subseteq> ?R" and d: "distinct (foldedRanges st)"
    and anc: "anchored T ?ls" and dl: "distinct ?ls"
    using assms(2) by (simp_all add: consistent_def anchored_def distinct_removeAll)
  have rest: "set (foldedRanges st) - {r} \<subseteq> ?R'"
  proof
    fix x assume x: "x \<in> set (foldedRanges st) - {r}"
    with sub obtain l' where l': "l' \<in> set (foldedLines st)" "lookup T l' = Some x"
      by (auto simp: line_ranges_def)
    with x assms(3) have "l' \<noteq> l" by auto
    with l' show "x \<in> ?R'" by (auto simp: line_ranges_def)
  qed
  show ?thesis
  proof (cases "r \<in> set (foldedRanges st)")
    case False
    then have "set (foldedRanges st) \<subseteq> ?R'" using rest by auto
    then have "consistent T \<lparr>foldedLines = ?ls, foldedRanges = foldedRanges st\<rparr>"
      using anc dl d by (simp add: consistent_def)
    then show ?thesis
      using toggleFold_unfold[OF assms(1,2,3) True] False by simp
  next
    case inR: True
    let ?F0 = "remove1 r (foldedRanges st)"
    have f0: "set ?F0 \<subseteq> ?R'" "distinct ?F0"
      using rest d by (simp_all add: set_remove1_eq)
    have ps: "set (later_ranges T (fst r) ?ls) \<subseteq> ?R'"
      by (rule later_ranges_subset[OF anc])
    from replay_laminar[OF lam' ps f0] f0(1) ps
    have "set (replay (later_ranges T (fst r) ?ls) ?F0) \<subseteq> ?R'"
      "distinct (replay (later_ranges T (fst r) ?ls) ?F0)"
      by auto
    then have "consistent T \<lparr>foldedLines = ?ls,
        foldedRanges = replay (later_ranges T (fst r) ?ls) ?F0\<rparr>"
      using anc dl by (simp add: consistent_def)
    then show ?thesis
      using toggleFold_unfold[OF assms(1,2,3) True] inR by simp
  qed
qed

lemma toggles_consistent:
  assumes "table_ok T"
  shows "consistent T st \<Longrightarrow> toggles T ls st = Inr st' \<Longrightarrow> consistent T st'"
proof (induction ls arbitrary: st)
  case Nil
  then show ?case by simp
next
  case (Cons l ls)
  from Cons.prems(2) obtain r where r: "lookup T l = Some r"
    by (cases "lookup T l") (simp_all add: toggleFold_def)
  from toggleFold_consistent[OF assms Cons.prems(1) r]
  obtain st1 where st1: "toggleFold T l st = Inr st1" "consistent T st1" by blast
  with Cons.prems(2) have "toggles T ls st1 = Inr st'" by simp
  from Cons.IH[OF st1(2) this] show ?case .
qed

lemma toggles_append:
  "toggles T (ls @ ls') st =
     (case toggles T ls st of Inl e \<Rightarrow> Inl e | Inr st1 \<Rightarrow> toggles T ls' st1)"
  by (induction ls arbitrary: st) (auto split: sum.splits)

subsection \<open>The public toggle\<close>

lemma toggleFold_anchored_ok:
  assumes "anchored T (foldedLines st)" "lookup T l = Some r"
  shows "\<exists>st'. toggleFold T l st = Inr st' \<and>
     set (foldedLines st') = (if l \<in> set (foldedLines st) then set (foldedLines st) - {l}
                              else insert l (set (foldedLines st)))
     \<and> anchored T (foldedLines st')"
proof (cases "l \<in> set (foldedLines st)")
  case False
  with assms show ?thesis
    by (simp add: toggleFold_fold anchored_def)
next
  case True
  have anc: "anchored T (removeAll l (foldedLines st))"
    using assms(1) by (simp add: anchored_def)
  obtain rs where rs: "unfold_loop T (fst r) (removeAll l (foldedLines st)) [] (foldedRanges st) = Inr rs"
    by (cases "List.find (\<lambda>x. fst x = fst r) (foldedRanges st)")
       (simp_all add: unfold_loop_find readd_replay[OF anc])
  with True assms(2) anc show ?thesis
    by (simp add: toggleFold_def Let_def)
qed

text \<open>
  Claim C8. On a line without an anchor the method \<open>toggleFold\<close> of the extension returns
  \<open>false\<close> and leaves the state as it is, whatever \<open>force\<close> is. In a state whose folded
  lines are anchored it never throws, it returns \<open>true\<close> exactly when the state changed,
  and it does so exactly when the line is anchored and \<open>force\<close> allows the change:
  \<open>true\<close> only folds, \<open>false\<close> only unfolds, \<open>undefined\<close> always toggles.
\<close>

theorem folding_toggleFold_returns:
  "(lookup T L = None \<longrightarrow> folding_toggleFold T L force st = Inr (False, st))
   \<and> (anchored T (foldedLines st) \<longrightarrow>
        (\<exists>b st'. folding_toggleFold T L force st = Inr (b, st')
           \<and> (b \<longleftrightarrow> st' \<noteq> st)
           \<and> (b \<longleftrightarrow> lookup T L \<noteq> None \<and>
                 (case force of
                    None \<Rightarrow> True
                  | Some True \<Rightarrow> L \<notin> set (foldedLines st)
                  | Some False \<Rightarrow> L \<in> set (foldedLines st)))
           \<and> (b \<longrightarrow> (L \<in> set (foldedLines st') \<longleftrightarrow> L \<notin> set (foldedLines st)))
           \<and> anchored T (foldedLines st')))"
proof (intro conjI impI)
  assume "lookup T L = None"
  then show "folding_toggleFold T L force st = Inr (False, st)"
    by (simp add: folding_toggleFold_def)
next
  assume anc: "anchored T (foldedLines st)"
  define go where "go = (lookup T L \<noteq> None \<and> loose_neq (L \<in> set (foldedLines st)) force)"
  define want where "want = (lookup T L \<noteq> None \<and>
      (case force of None \<Rightarrow> True
       | Some True \<Rightarrow> L \<notin> set (foldedLines st)
       | Some False \<Rightarrow> L \<in> set (foldedLines st)))"
  have gw: "go = want"
    unfolding go_def want_def by (auto simp: loose_neq_def split: option.splits bool.splits)
  have def: "folding_toggleFold T L force st =
      (if go then (case toggleFold T L st of Inl e \<Rightarrow> Inl e | Inr st' \<Rightarrow> Inr (True, st'))
       else Inr (False, st))"
    unfolding go_def by (rule folding_toggleFold_def)
  have "\<exists>b st'. folding_toggleFold T L force st = Inr (b, st')
           \<and> (b \<longleftrightarrow> st' \<noteq> st)
           \<and> (b \<longleftrightarrow> want)
           \<and> (b \<longrightarrow> (L \<in> set (foldedLines st') \<longleftrightarrow> L \<notin> set (foldedLines st)))
           \<and> anchored T (foldedLines st')"
  proof (cases go)
    case False
    then have "folding_toggleFold T L force st = Inr (False, st)"
      by (simp add: def)
    with False gw anc show ?thesis
      by (intro exI[of _ False] exI[of _ st]) simp
  next
    case True
    then obtain r where r: "lookup T L = Some r" unfolding go_def by auto
    from toggleFold_anchored_ok[OF anc r] obtain st' where
      st': "toggleFold T L st = Inr st'"
        "set (foldedLines st') = (if L \<in> set (foldedLines st) then set (foldedLines st) - {L}
                              else insert L (set (foldedLines st)))"
        "anchored T (foldedLines st')"
      by blast
    have ne: "st' \<noteq> st" using st'(2) by (auto split: if_splits)
    have f: "folding_toggleFold T L force st = Inr (True, st')"
      using True st'(1) by (simp add: def)
    have m: "L \<in> set (foldedLines st') \<longleftrightarrow> L \<notin> set (foldedLines st)"
      using st'(2) by (auto split: if_splits)
    show ?thesis
      using f ne m st'(3) gw True by (intro exI[of _ True] exI[of _ st']) simp
  qed
  then show "\<exists>b st'. folding_toggleFold T L force st = Inr (b, st')
           \<and> (b \<longleftrightarrow> st' \<noteq> st)
           \<and> (b \<longleftrightarrow> lookup T L \<noteq> None \<and>
                 (case force of
                    None \<Rightarrow> True
                  | Some True \<Rightarrow> L \<notin> set (foldedLines st)
                  | Some False \<Rightarrow> L \<in> set (foldedLines st)))
           \<and> (b \<longrightarrow> (L \<in> set (foldedLines st') \<longleftrightarrow> L \<notin> set (foldedLines st)))
           \<and> anchored T (foldedLines st')"
    unfolding want_def .
qed

theorem folding_toggleFold_returns_witness:
  "anchored [None, Some (0, 9)] (foldedLines init_state)
   \<and> folding_toggleFold [None, Some (0, 9)] 1 (Some True) init_state
       = Inr (True, \<lparr>foldedLines = [1], foldedRanges = [(0, 9)]\<rparr>)
   \<and> folding_toggleFold [None, Some (0, 9)] 1 (Some False) init_state = Inr (False, init_state)
   \<and> folding_toggleFold [None, Some (0, 9)] 0 None init_state = Inr (False, init_state)"
proof -
  have a: "anchored [None, Some (0, 9)] (foldedLines init_state)"
    by (simp add: anchored_def init_state_def)
  have n: "lookup [None, Some (0, 9)] 0 = None"
    by (simp add: lookup_def)
  have 1: "folding_toggleFold [None, Some (0, 9)] 1 (Some True) init_state
       = Inr (True, \<lparr>foldedLines = [1], foldedRanges = [(0, 9)]\<rparr>)"
    by (simp add: folding_toggleFold_def loose_neq_def lookup_def init_state_def toggleFold_def
        addFold_def)
  have 2: "folding_toggleFold [None, Some (0, 9)] 1 (Some False) init_state = Inr (False, init_state)"
    by (simp add: folding_toggleFold_def loose_neq_def lookup_def init_state_def)
  show ?thesis
    using a 1 2 n folding_toggleFold_returns[of "[None, Some (0, 9)]" 0 None init_state]
      folding_toggleFold_returns[of "[None, Some (0, 9)]" 1 "Some True" init_state]
    by simp
qed

subsection \<open>Folding inside a folded range and unfolding the outer range\<close>

lemma later_ranges_append:
  "later_ranges T s (ls @ ls') = later_ranges T s ls @ later_ranges T s ls'"
  by (simp add: later_ranges_def)

lemma later_ranges_single:
  "lookup T l = Some r \<Longrightarrow> later_ranges T s [l] = (if s < fst r then [r] else [])"
  by (simp add: later_ranges_def)

lemma reachable_consistent:
  "table_ok T \<Longrightarrow> toggles T ls init_state = Inr st \<Longrightarrow> consistent T st"
  using toggles_consistent[OF _ consistent_init] by blast

lemma fold_step:
  assumes "table_ok T" "consistent T st" "lookup T l = Some r" "l \<notin> set (foldedLines st)"
  defines "st' \<equiv> \<lparr>foldedLines = foldedLines st @ [l], foldedRanges = addFold r (foldedRanges st)\<rparr>"
  shows "toggleFold T l st = Inr st'" "consistent T st'"
    "set (foldedRanges st') = insert r {x \<in> set (foldedRanges st). \<not> absorbs r x}"
proof -
  show 1: "toggleFold T l st = Inr st'"
    unfolding st'_def by (rule toggleFold_fold[OF assms(3,4)])
  from toggleFold_consistent[OF assms(1,2,3)] 1 show "consistent T st'" by simp
  let ?R = "line_ranges T (foldedLines st @ [l])"
  have lam: "laminar ?R" by (rule table_ok_laminar[OF assms(1)])
  have r: "r \<in> ?R" using assms(3) by (auto simp: line_ranges_def)
  have sub: "set (foldedRanges st) \<subseteq> ?R"
    using assms(2) line_ranges_mono[of "foldedLines st" "foldedLines st @ [l]" T]
    by (auto simp: consistent_def)
  have d: "distinct (foldedRanges st)" using assms(2) by (simp add: consistent_def)
  show "set (foldedRanges st') = insert r {x \<in> set (foldedRanges st). \<not> absorbs r x}"
    unfolding st'_def using addFold_laminar(1)[OF lam r sub d] by simp
qed

lemma merge_split_from_empty:
  assumes "lookup T A = Some rA" "lookup T B = Some rB"
    and "fst rA < fst rB" "fst rB < snd rA"
  shows "\<exists>st'. toggles T [A, B, A] init_state = Inr st'
    \<and> foldedLines st' = [B] \<and> set (foldedRanges st') = {rB}"
proof -
  have AB: "A \<noteq> B" using assms(1,2,3) by auto
  obtain a0 a1 where a: "rA = (a0, a1)" by (cases rA)
  obtain b0 b1 where b: "rB = (b0, b1)" by (cases rB)
  have 1: "toggleFold T A init_state = Inr \<lparr>foldedLines = [A], foldedRanges = [rA]\<rparr>"
    using assms(1) by (simp add: toggleFold_def init_state_def addFold_def a)
  have 2: "toggleFold T B \<lparr>foldedLines = [A], foldedRanges = [rA]\<rparr>
      = Inr \<lparr>foldedLines = [A, B], foldedRanges = [rA, rB]\<rparr>"
    using assms(2,3) AB by (simp add: toggleFold_def addFold_def a b)
  have 3: "toggleFold T A \<lparr>foldedLines = [A, B], foldedRanges = [rA, rB]\<rparr>
      = Inr \<lparr>foldedLines = [B], foldedRanges = addFold rB [rB]\<rparr>"
    using assms(1,2,3) AB by (simp add: toggleFold_def)
  have 4: "set (addFold rB [rB]) = {rB}"
    by (auto simp: addFold_def b)
  show ?thesis using 1 2 3 4 by simp
qed

lemma merge_split_reachable:
  assumes "table_ok T" "toggles T ls init_state = Inr st"
    and "lookup T A = Some rA" "lookup T B = Some rB"
    and "fst rA < fst rB" "fst rB < snd rA"
    and "A \<notin> set (foldedLines st)" "B \<notin> set (foldedLines st)"
  shows "\<exists>st'. toggles T [A, B, A] st = Inr st'
    \<and> B \<in> set (foldedLines st') \<and> A \<notin> set (foldedLines st')
    \<and> rB \<in> set (foldedRanges st')"
proof -
  have AB: "A \<noteq> B" using assms(3,4,5) by auto
  have c0: "consistent T st" by (rule reachable_consistent[OF assms(1,2)])
  define st1 where "st1 = \<lparr>foldedLines = foldedLines st @ [A],
     foldedRanges = addFold rA (foldedRanges st)\<rparr>"
  have t1: "toggleFold T A st = Inr st1" and c1: "consistent T st1"
    and s1: "rA \<in> set (foldedRanges st1)"
    using fold_step[OF assms(1) c0 assms(3,7)] by (simp_all add: st1_def)
  have B1: "B \<notin> set (foldedLines st1)" using assms(8) AB by (simp add: st1_def)
  define st2 where "st2 = \<lparr>foldedLines = foldedLines st1 @ [B],
     foldedRanges = addFold rB (foldedRanges st1)\<rparr>"
  have t2: "toggleFold T B st1 = Inr st2" and c2: "consistent T st2"
    and s2: "set (foldedRanges st2) = insert rB {x \<in> set (foldedRanges st1). \<not> absorbs rB x}"
    using fold_step[OF assms(1) c1 assms(4) B1] by (simp_all add: st2_def)
  have "\<not> absorbs rB rA" using assms(5) by (simp add: absorbs_def)
  with s1 s2 have rA2: "rA \<in> set (foldedRanges st2)" by simp
  have A2: "A \<in> set (foldedLines st2)" by (simp add: st2_def st1_def)
  let ?ls = "removeAll A (foldedLines st2)"
  have ls: "?ls = foldedLines st @ [B]"
    using assms(7) AB by (simp add: st2_def st1_def)
  let ?ps = "later_ranges T (fst rA) (foldedLines st)"
  let ?F0 = "remove1 rA (foldedRanges st2)"
  define st3 where "st3 = \<lparr>foldedLines = ?ls,
     foldedRanges = replay (later_ranges T (fst rA) ?ls) ?F0\<rparr>"
  have t3: "toggleFold T A st2 = Inr st3"
    using toggleFold_unfold[OF assms(1) c2 assms(3) A2] rA2 by (simp add: st3_def)
  have c3: "consistent T st3"
    using toggleFold_consistent[OF assms(1) c2 assms(3)] t3 by simp
  have lr: "later_ranges T (fst rA) ?ls = ?ps @ [rB]"
    using assms(5) by (simp add: ls later_ranges_append later_ranges_single[OF assms(4)])
  have f3: "foldedRanges st3 = addFold rB (replay ?ps ?F0)"
    by (simp add: st3_def lr replay_append replay_Cons replay_Nil)
  let ?R = "line_ranges T ?ls"
  have lam: "laminar ?R" by (rule table_ok_laminar[OF assms(1)])
  have anc: "anchored T ?ls" using c3 by (simp add: consistent_def st3_def)
  have rB: "rB \<in> ?R" using assms(4) by (auto simp: ls line_ranges_def)
  have d2: "distinct (foldedRanges st2)" and sub2: "set (foldedRanges st2) \<subseteq> line_ranges T (foldedLines st2)"
    using c2 by (simp_all add: consistent_def)
  have f0: "set ?F0 \<subseteq> ?R"
  proof
    fix x assume "x \<in> set ?F0"
    then have x: "x \<in> set (foldedRanges st2)" "x \<noteq> rA" using d2 by (simp_all add: set_remove1_eq)
    with sub2 obtain l where l: "l \<in> set (foldedLines st2)" "lookup T l = Some x"
      by (auto simp: line_ranges_def)
    with x(2) assms(3) have "l \<noteq> A" by auto
    with l show "x \<in> ?R" by (auto simp: line_ranges_def)
  qed
  have df0: "distinct ?F0" using d2 by simp
  have ps: "set ?ps \<subseteq> ?R"
    using later_ranges_subset[OF anc, of "fst rA"] by (simp add: lr)
  from replay_laminar[OF lam ps f0 df0] f0 ps
  have y: "set (replay ?ps ?F0) \<subseteq> ?R" "distinct (replay ?ps ?F0)" by auto
  have "rB \<in> set (foldedRanges st3)"
    using addFold_laminar(1)[OF lam rB y] by (simp add: f3)
  moreover have "B \<in> set (foldedLines st3)" "A \<notin> set (foldedLines st3)"
    using AB assms(7) by (simp_all add: st3_def ls)
  moreover have "toggles T [A, B, A] st = Inr st3"
    by (simp add: t1 t2 t3)
  ultimately show ?thesis by blast
qed

text \<open>
  Claim C4. For anchored lines \<open>A\<close> and \<open>B\<close> with the start of \<open>B\<close>'s range inside \<open>A\<close>'s
  range: starting with nothing folded, folding \<open>A\<close>, folding \<open>B\<close> and unfolding \<open>A\<close> leaves
  exactly \<open>B\<close> folded, with its anchor range as the only folded range. With a well-nested
  anchor table the same holds from every state reached by toggles in which neither line
  is folded: \<open>B\<close> is folded, \<open>A\<close> is not, and \<open>B\<close>'s anchor range is in the folded set.
\<close>

theorem merge_split_inverse:
  assumes "lookup T A = Some rA" "lookup T B = Some rB"
    and "fst rA < fst rB" "fst rB < snd rA"
  shows "(\<exists>st'. toggles T [A, B, A] init_state = Inr st'
            \<and> foldedLines st' = [B] \<and> set (foldedRanges st') = {rB})
    \<and> (table_ok T \<and> toggles T ls init_state = Inr st
         \<and> A \<notin> set (foldedLines st) \<and> B \<notin> set (foldedLines st) \<longrightarrow>
        (\<exists>st'. toggles T [A, B, A] st = Inr st'
            \<and> B \<in> set (foldedLines st') \<and> A \<notin> set (foldedLines st')
            \<and> rB \<in> set (foldedRanges st')))"
  using merge_split_from_empty[OF assms] merge_split_reachable[OF _ _ assms]
  by blast

theorem merge_split_inverse_witness:
  "lookup [None, Some (0, 20), Some (5, 10)] 1 = Some (0, 20)
   \<and> lookup [None, Some (0, 20), Some (5, 10)] 2 = Some (5, 10)
   \<and> table_ok [None, Some (0, 20), Some (5, 10)]
   \<and> toggles [None, Some (0, 20), Some (5, 10)] [] init_state = Inr init_state
   \<and> toggles [None, Some (0, 20), Some (5, 10)] [1, 2, 1] init_state
       = Inr \<lparr>foldedLines = [2], foldedRanges = [(5, 10)]\<rparr>"
proof -
  let ?T = "[None, Some (0, 20), Some (5, 10)]"
  have ok: "table_ok ?T"
    by (simp add: table_ok_def lessThan_Suc numeral_3_eq_3)
  have r: "toggles ?T [] init_state = Inr init_state" by simp
  have l: "lookup ?T 1 = Some (0, 20)" "lookup ?T 2 = Some (5, 10)"
    by (simp_all add: lookup_def)
  have n: "1 \<notin> set (foldedLines init_state)" "2 \<notin> set (foldedLines init_state)"
    by (simp_all add: init_state_def)
  have c: "toggles ?T [1, 2, 1] init_state = Inr \<lparr>foldedLines = [2], foldedRanges = [(5, 10)]\<rparr>"
    by (simp add: toggleFold_def lookup_def init_state_def addFold_def)
  show ?thesis
    using ok r c l n merge_split_inverse[OF l, of "[]" init_state] by simp
qed

subsection \<open>The invariant of visible toggles\<close>

lemma hidden_iff: "hidden rs p \<longleftrightarrow> (\<exists>c \<in> set rs. fst c < p \<and> p < snd c)"
  by (simp add: hidden_def split_beta)

lemma laminar_valid: "laminar R \<Longrightarrow> r \<in> R \<Longrightarrow> fst r < snd r"
  unfolding laminar_def by blast

lemma laminar_absorbs_self: "laminar R \<Longrightarrow> r \<in> R \<Longrightarrow> absorbs r r"
  by (simp add: absorbs_def laminar_valid)

lemma laminar_absorbs_covers:
  "laminar R \<Longrightarrow> r \<in> R \<Longrightarrow> x \<in> R \<Longrightarrow> absorbs r x \<Longrightarrow> covers r x"
  using laminar_absorbs_le[of R r x] by (simp add: covers_def absorbs_def)

lemma covers_trans: "covers a b \<Longrightarrow> covers b c \<Longrightarrow> covers a c"
  by (simp add: covers_def)

lemma covers_refl: "covers a a"
  by (simp add: covers_def)

lemma laminar_disjoint:
  assumes "laminar R" "a \<in> R" "b \<in> R" "a \<noteq> b"
    and "\<not> contains_start a b" "\<not> contains_start b a"
  shows "disjoint_ranges a b"
proof -
  have ne: "fst a \<noteq> fst b" using assms(1-4) unfolding laminar_def by blast
  have va: "fst a < snd a" and vb: "fst b < snd b"
    using assms(1-3) by (simp_all add: laminar_valid)
  show ?thesis
  proof (cases "fst a < fst b")
    case True
    with assms(5) have "snd a \<le> fst b" by (simp add: contains_start_def)
    then show ?thesis by (simp add: disjoint_ranges_def)
  next
    case False
    with ne have "fst b < fst a" by simp
    with assms(6) have "snd b \<le> fst a" by (simp add: contains_start_def)
    then show ?thesis by (simp add: disjoint_ranges_def)
  qed
qed

lemma disjoint_not_contains:
  "disjoint_ranges a b \<Longrightarrow> fst b < snd b \<Longrightarrow> \<not> contains_start a b"
  by (auto simp: disjoint_ranges_def contains_start_def)

lemma contains_start_absorbs: "contains_start a b \<Longrightarrow> absorbs a b"
  by (simp add: contains_start_def absorbs_def)

lemma addFold_covers:
  assumes "laminar R" "r \<in> R" "set F \<subseteq> R" "distinct F"
    and "\<exists>c \<in> set F. covers c x"
  shows "\<exists>c \<in> set (addFold r F). covers c x"
proof -
  from assms(5) obtain c where c: "c \<in> set F" "covers c x" by blast
  have s: "set (addFold r F) = insert r {x \<in> set F. \<not> absorbs r x}"
    by (rule addFold_laminar(1)[OF assms(1-4)])
  show ?thesis
  proof (cases "absorbs r c")
    case True
    with assms(1,2,3) c(1) have "covers r c" by (auto intro: laminar_absorbs_covers)
    with c(2) have "covers r x" using covers_trans[of r c x] by simp
    then show ?thesis using s by blast
  next
    case False
    with c s show ?thesis by blast
  qed
qed

lemma replay_covers:
  assumes "laminar R" "set ps \<subseteq> R"
  shows "set F \<subseteq> R \<Longrightarrow> distinct F \<Longrightarrow> \<exists>c \<in> set F. covers c x \<Longrightarrow>
    \<exists>c \<in> set (replay ps F). covers c x"
  using assms(2)
proof (induction ps arbitrary: F)
  case Nil
  then show ?case by (simp add: replay_Nil)
next
  case (Cons p ps)
  have p: "p \<in> R" "set ps \<subseteq> R" using Cons.prems(4) by simp_all
  have s: "set (addFold p F) \<subseteq> R" and d: "distinct (addFold p F)"
    using addFold_laminar[OF assms(1) p(1) Cons.prems(1,2)] p(1) Cons.prems(1) by auto
  have c: "\<exists>c \<in> set (addFold p F). covers c x"
    by (rule addFold_covers[OF assms(1) p(1) Cons.prems(1,2,3)])
  show ?case
    using Cons.IH[OF s d c p(2)] by (simp add: replay_Cons)
qed

lemma replay_covers_added:
  assumes "laminar R" "set ps \<subseteq> R"
  shows "set F \<subseteq> R \<Longrightarrow> distinct F \<Longrightarrow> x \<in> set ps \<Longrightarrow>
    \<exists>c \<in> set (replay ps F). covers c x"
  using assms(2)
proof (induction ps arbitrary: F)
  case Nil
  then show ?case by simp
next
  case (Cons p ps)
  have p: "p \<in> R" "set ps \<subseteq> R" using Cons.prems(4) by simp_all
  have st: "set (addFold p F) = insert p {x \<in> set F. \<not> absorbs p x}"
    by (rule addFold_laminar(1)[OF assms(1) p(1) Cons.prems(1,2)])
  have s: "set (addFold p F) \<subseteq> R" and d: "distinct (addFold p F)"
    using addFold_laminar[OF assms(1) p(1) Cons.prems(1,2)] p(1) Cons.prems(1) by auto
  show ?case
  proof (cases "x = p")
    case True
    have "\<exists>c \<in> set (addFold p F). covers c x"
      using st True covers_refl by blast
    from replay_covers[OF assms(1) p(2) s d this] show ?thesis
      by (simp add: replay_Cons)
  next
    case False
    with Cons.prems(3) have "x \<in> set ps" by simp
    from Cons.IH[OF s d this p(2)] show ?thesis by (simp add: replay_Cons)
  qed
qed

lemma replay_no_contains:
  assumes "laminar R"
  shows "set todo \<subseteq> R \<Longrightarrow> sorted_wrt (\<lambda>a b. \<not> contains_start a b) todo \<Longrightarrow>
    set F \<subseteq> R \<Longrightarrow> distinct F \<Longrightarrow>
    \<forall>a \<in> set F. \<forall>b \<in> set F. contains_start a b \<longrightarrow> a \<in> set todo \<Longrightarrow>
    \<forall>a \<in> set F. \<forall>p \<in> set todo. contains_start a p \<longrightarrow> a \<in> set todo \<Longrightarrow>
    \<forall>a \<in> set (replay todo F). \<forall>b \<in> set (replay todo F). \<not> contains_start a b"
proof (induction todo arbitrary: F)
  case Nil
  then show ?case by (simp add: replay_Nil)
next
  case (Cons r todo)
  have r: "r \<in> R" "set todo \<subseteq> R" using Cons.prems(1) by simp_all
  have ord: "\<forall>p \<in> set todo. \<not> contains_start r p"
    "sorted_wrt (\<lambda>a b. \<not> contains_start a b) todo"
    using Cons.prems(2) by simp_all
  have st: "set (addFold r F) = insert r {x \<in> set F. \<not> absorbs r x}"
    by (rule addFold_laminar(1)[OF assms r(1) Cons.prems(3,4)])
  have s: "set (addFold r F) \<subseteq> R" and d: "distinct (addFold r F)"
    using addFold_laminar[OF assms r(1) Cons.prems(3,4)] r(1) Cons.prems(3) by auto
  have self: "absorbs r r" by (rule laminar_absorbs_self[OF assms r(1)])
  have k2: "\<forall>a \<in> set (addFold r F). \<forall>b \<in> set (addFold r F).
      contains_start a b \<longrightarrow> a \<in> set todo"
  proof (intro ballI impI)
    fix a b
    assume a: "a \<in> set (addFold r F)" and b: "b \<in> set (addFold r F)"
      and cs: "contains_start a b"
    show "a \<in> set todo"
    proof (cases "a = r")
      case True
      with cs have "absorbs r b" "b \<noteq> r"
        by (auto simp: contains_start_absorbs contains_start_def)
      with b st show ?thesis by simp
    next
      case False
      with a st have aF: "a \<in> set F" "\<not> absorbs r a" by simp_all
      show ?thesis
      proof (cases "b = r")
        case True
        with cs aF(1) Cons.prems(6) have "a \<in> set (r # todo)" by (meson list.set_intros(1))
        with False show ?thesis by simp
      next
        case bne: False
        with b st have "b \<in> set F" by simp
        with cs aF(1) Cons.prems(5) have "a \<in> set (r # todo)" by blast
        with False show ?thesis by simp
      qed
    qed
  qed
  have k3: "\<forall>a \<in> set (addFold r F). \<forall>p \<in> set todo. contains_start a p \<longrightarrow> a \<in> set todo"
  proof (intro ballI impI)
    fix a p
    assume a: "a \<in> set (addFold r F)" and p: "p \<in> set todo" and cs: "contains_start a p"
    show "a \<in> set todo"
    proof (cases "a = r")
      case True
      with cs p ord(1) show ?thesis by simp
    next
      case False
      with a st have "a \<in> set F" by simp
      with cs p Cons.prems(6) have "a \<in> set (r # todo)" by (meson list.set_intros(2))
      with False show ?thesis by simp
    qed
  qed
  show ?case
    using Cons.IH[OF r(2) ord(2) s d k2 k3] by (simp add: replay_Cons)
qed

lemma fold_inv_consistent: "fold_inv T st \<Longrightarrow> consistent T st"
  by (simp add: fold_inv_def)

lemma fold_inv_init: "fold_inv T init_state"
  by (simp add: fold_inv_def consistent_init) (simp add: init_state_def line_ranges_def)

lemma line_ranges_map:
  "anchored T ls \<Longrightarrow> set (map (the \<circ> lookup T) ls) = line_ranges T ls"
  by (force simp: line_ranges_def anchored_def image_iff)

text \<open>A visible line that is not folded: the fold branch keeps the invariant.\<close>

lemma fold_inv_fold:
  assumes "table_ok T" "fold_inv T st" "lookup T l = Some r" "l \<notin> set (foldedLines st)"
    and vis: "\<not> hidden (foldedRanges st) (fst r)"
  defines "st' \<equiv> \<lparr>foldedLines = foldedLines st @ [l], foldedRanges = addFold r (foldedRanges st)\<rparr>"
  shows "fold_inv T st'" and "r \<in> set (foldedRanges st')"
proof -
  have c0: "consistent T st" using assms(2) by (rule fold_inv_consistent)
  note fs = fold_step[OF assms(1) c0 assms(3,4)]
  have c1: "consistent T st'" and
    s1: "set (foldedRanges st') = insert r {x \<in> set (foldedRanges st). \<not> absorbs r x}"
    using fs(2,3) by (simp_all add: st'_def)
  show "r \<in> set (foldedRanges st')" using s1 by simp
  let ?R = "line_ranges T (foldedLines st')"
  have lam: "laminar ?R" by (rule table_ok_laminar[OF assms(1)])
  have r: "r \<in> ?R" using assms(3) by (auto simp: line_ranges_def st'_def)
  have mono: "line_ranges T (foldedLines st) \<subseteq> ?R"
    by (rule line_ranges_mono) (auto simp: st'_def)
  have sub: "set (foldedRanges st) \<subseteq> ?R" and d: "distinct (foldedRanges st)"
    using c0 mono by (auto simp: consistent_def)
  have anc: "anchored T (foldedLines st)" using c0 by (simp add: consistent_def)
  have cov0: "\<forall>x \<in> line_ranges T (foldedLines st). \<exists>c \<in> set (foldedRanges st). covers c x"
    and dis0: "\<forall>a \<in> set (foldedRanges st). \<forall>b \<in> set (foldedRanges st).
          a \<noteq> b \<longrightarrow> disjoint_ranges a b"
    and ord0: "sorted_wrt (\<lambda>a b. \<not> contains_start a b) (map (the \<circ> lookup T) (foldedLines st))"
    using assms(2) by (simp_all add: fold_inv_def)
  have nh: "\<And>c. c \<in> set (foldedRanges st) \<Longrightarrow> \<not> (fst c < fst r \<and> fst r < snd c)"
    using vis by (auto simp: hidden_iff)
  have cov: "\<forall>x \<in> ?R. \<exists>c \<in> set (foldedRanges st'). covers c x"
  proof
    fix x assume "x \<in> ?R"
    then have "x = r \<or> x \<in> line_ranges T (foldedLines st)"
      using assms(3) by (auto simp: line_ranges_def st'_def)
    then show "\<exists>c \<in> set (foldedRanges st'). covers c x"
    proof
      assume "x = r"
      then show ?thesis using s1 covers_refl by blast
    next
      assume "x \<in> line_ranges T (foldedLines st)"
      with cov0 have "\<exists>c \<in> set (foldedRanges st). covers c x" by blast
      from addFold_covers[OF lam r sub d this] show ?thesis by (simp add: st'_def)
    qed
  qed
  have dis: "\<forall>a \<in> set (foldedRanges st'). \<forall>b \<in> set (foldedRanges st').
          a \<noteq> b \<longrightarrow> disjoint_ranges a b"
  proof -
    have k: "disjoint_ranges r a \<and> disjoint_ranges a r"
      if a: "a \<in> set (foldedRanges st)" "\<not> absorbs r a" for a
    proof -
      have "snd r \<le> fst a \<or> snd a \<le> fst r"
        using nh[OF a(1)] a(2) by (auto simp: absorbs_def)
      then show ?thesis by (auto simp: disjoint_ranges_def)
    qed
    show ?thesis using s1 dis0 k by auto
  qed
  have ord: "sorted_wrt (\<lambda>a b. \<not> contains_start a b) (map (the \<circ> lookup T) (foldedLines st'))"
  proof -
    have "\<not> contains_start x r" if x: "x \<in> line_ranges T (foldedLines st)" for x
    proof
      assume cs: "contains_start x r"
      from cov0 x obtain c where c: "c \<in> set (foldedRanges st)" "covers c x" by blast
      with cs have "fst c < fst r \<and> fst r < snd c"
        by (auto simp: covers_def contains_start_def)
      with nh[OF c(1)] show False by simp
    qed
    then show ?thesis
      using ord0 assms(3) line_ranges_map[OF anc]
      by (auto simp: st'_def sorted_wrt_append)
  qed
  show "fold_inv T st'"
    unfolding fold_inv_def using c1 cov dis ord by blast
qed

lemma sorted_wrt_map_filter:
  "sorted_wrt P (map f xs) \<Longrightarrow> sorted_wrt P (map f (filter Q xs))"
  by (simp add: sorted_wrt_map sorted_wrt_filter)

lemma fold_inv_fold_visible:
  assumes "table_ok T" "fold_inv T st" "lookup T l = Some r" "l \<notin> set (foldedLines st)"
    and "\<not> hidden (foldedRanges st) (fst r)"
  shows "\<not> hidden (addFold r (foldedRanges st)) (fst r)"
proof
  let ?st' = "\<lparr>foldedLines = foldedLines st @ [l], foldedRanges = addFold r (foldedRanges st)\<rparr>"
  assume "hidden (addFold r (foldedRanges st)) (fst r)"
  then obtain c where c: "c \<in> set (addFold r (foldedRanges st))" "fst c < fst r" "fst r < snd c"
    by (auto simp: hidden_iff)
  note fi = fold_inv_fold[OF assms]
  have "r \<in> set (addFold r (foldedRanges st))" using fi(2) by simp
  moreover have "c \<noteq> r" using c(2) by auto
  ultimately have "disjoint_ranges c r" using fi(1) c(1) by (simp add: fold_inv_def)
  moreover have "fst r < snd r" by (rule table_ok_valid[OF assms(1,3)])
  ultimately show False using c(2,3) by (auto simp: disjoint_ranges_def)
qed

text \<open>A visible line that is folded: the unfold branch keeps the invariant.\<close>

lemma fold_inv_unfold:
  assumes "table_ok T" "fold_inv T st" "lookup T l = Some r" "l \<in> set (foldedLines st)"
    and vis: "\<not> hidden (foldedRanges st) (fst r)"
  defines "ls \<equiv> removeAll l (foldedLines st)"
  defines "st' \<equiv> \<lparr>foldedLines = ls,
     foldedRanges = replay (later_ranges T (fst r) ls) (remove1 r (foldedRanges st))\<rparr>"
  shows "toggleFold T l st = Inr st'" and "fold_inv T st'"
    and "\<not> hidden (foldedRanges st') (fst r)"
proof -
  let ?FR = "foldedRanges st"
  let ?R = "line_ranges T (foldedLines st)"
  let ?R' = "line_ranges T ls"
  let ?G = "remove1 r ?FR"
  let ?P = "later_ranges T (fst r) ls"
  let ?F = "replay ?P ?G"
  have c0: "consistent T st" using assms(2) by (rule fold_inv_consistent)
  have lam: "laminar ?R" and lam': "laminar ?R'"
    by (rule table_ok_laminar[OF assms(1)])+
  have sub: "set ?FR \<subseteq> ?R" and d: "distinct ?FR" and anc: "anchored T ls"
    using c0 by (simp_all add: consistent_def anchored_def ls_def)
  have rR: "r \<in> ?R" using assms(3,4) by (auto simp: line_ranges_def)
  have vr: "fst r < snd r" by (rule table_ok_valid[OF assms(1,3)])
  have cov0: "\<forall>x \<in> ?R. \<exists>c \<in> set ?FR. covers c x"
    and dis0: "\<forall>a \<in> set ?FR. \<forall>b \<in> set ?FR. a \<noteq> b \<longrightarrow> disjoint_ranges a b"
    and ord0: "sorted_wrt (\<lambda>a b. \<not> contains_start a b) (map (the \<circ> lookup T) (foldedLines st))"
    using assms(2) by (simp_all add: fold_inv_def)
  have nh: "\<And>c. c \<in> set ?FR \<Longrightarrow> \<not> (fst c < fst r \<and> fst r < snd c)"
    using vis by (auto simp: hidden_iff)
  have inj: "\<And>x. x \<in> ?R \<Longrightarrow> fst x = fst r \<Longrightarrow> x = r"
    using lam rR unfolding laminar_def by blast
  have R'R: "?R' \<subseteq> ?R" by (rule line_ranges_mono) (auto simp: ls_def)
  have rR': "r \<notin> ?R'"
  proof
    assume "r \<in> ?R'"
    then obtain l' where l': "l' \<in> set ls" "lookup T l' = Some r" by (auto simp: line_ranges_def)
    from table_ok_start_inj[OF assms(1) l'(2) assms(3)] l'(1) show False by (simp add: ls_def)
  qed
  have rF: "r \<in> set ?FR"
  proof -
    from cov0 rR obtain c where c: "c \<in> set ?FR" "covers c r" by blast
    with nh[OF c(1)] vr have "fst c = fst r" by (auto simp: covers_def)
    with c(1) sub inj have "c = r" by blast
    with c(1) show ?thesis by simp
  qed
  show t: "toggleFold T l st = Inr st'"
    using toggleFold_unfold[OF assms(1) c0 assms(3,4)] rF by (simp add: st'_def ls_def)
  have c1: "consistent T st'"
    using toggleFold_consistent[OF assms(1) c0 assms(3)] t by simp
  have f0set: "set ?G = set ?FR - {r}" using d by (simp add: set_remove1_eq)
  have f0: "set ?G \<subseteq> ?R'"
  proof
    fix x assume "x \<in> set ?G"
    then have x: "x \<in> set ?FR" "x \<noteq> r" using f0set by simp_all
    with sub obtain l' where l': "l' \<in> set (foldedLines st)" "lookup T l' = Some x"
      by (auto simp: line_ranges_def)
    with x(2) assms(3) have "l' \<noteq> l" by auto
    with l' show "x \<in> ?R'" by (auto simp: line_ranges_def ls_def)
  qed
  have df0: "distinct ?G" using d by simp
  have ps: "set ?P \<subseteq> ?R'" by (rule later_ranges_subset[OF anc])
  have pset: "set ?P = {x \<in> ?R'. fst r < fst x}"
    using line_ranges_map[OF anc] by (auto simp: later_ranges_def)
  have ordP: "sorted_wrt (\<lambda>a b. \<not> contains_start a b) ?P"
    unfolding later_ranges_def ls_def removeAll_filter_not_eq
    by (intro sorted_wrt_filter sorted_wrt_map_filter ord0)
  have k2: "\<forall>a \<in> set ?G. \<forall>b \<in> set ?G. contains_start a b \<longrightarrow> a \<in> set ?P"
  proof (intro ballI impI)
    fix a b assume a: "a \<in> set ?G" and b: "b \<in> set ?G" and cs: "contains_start a b"
    have "a \<noteq> b" using cs by (auto simp: contains_start_def)
    with a b f0set dis0 have "disjoint_ranges a b" by simp
    moreover have "fst b < snd b" using b f0 lam' by (auto intro: laminar_valid)
    ultimately have "\<not> contains_start a b" by (rule disjoint_not_contains)
    with cs show "a \<in> set ?P" by simp
  qed
  have k3: "\<forall>a \<in> set ?G. \<forall>p \<in> set ?P. contains_start a p \<longrightarrow> a \<in> set ?P"
  proof (intro ballI impI)
    fix a p assume a: "a \<in> set ?G" and p: "p \<in> set ?P" and cs: "contains_start a p"
    have aFR: "a \<in> set ?FR" "a \<noteq> r" using a f0set by simp_all
    have "fst a \<noteq> fst r" using inj[of a] aFR sub by auto
    moreover have "\<not> (fst a < fst r)"
    proof
      assume "fst a < fst r"
      moreover have "fst r < snd a" using p cs pset by (auto simp: contains_start_def)
      ultimately show False using nh[OF aFR(1)] by simp
    qed
    ultimately have "fst r < fst a" by simp
    with a f0 show "a \<in> set ?P" using pset by auto
  qed
  have fsub: "set ?F \<subseteq> set ?G \<union> set ?P" and fd: "distinct ?F"
    using replay_laminar[OF lam' ps f0 df0] by simp_all
  have nc: "\<forall>a \<in> set ?F. \<forall>b \<in> set ?F. \<not> contains_start a b"
    by (rule replay_no_contains[OF lam' ps ordP f0 df0 k2 k3])
  have fR': "set ?F \<subseteq> ?R'" using fsub f0 ps by blast
  have dis: "\<forall>a \<in> set ?F. \<forall>b \<in> set ?F. a \<noteq> b \<longrightarrow> disjoint_ranges a b"
    using nc fR' laminar_disjoint[OF lam'] by (meson subsetD)
  have cov: "\<forall>x \<in> ?R'. \<exists>c \<in> set ?F. covers c x"
  proof
    fix x assume x: "x \<in> ?R'"
    show "\<exists>c \<in> set ?F. covers c x"
    proof (cases "fst r < fst x")
      case True
      with x pset have "x \<in> set ?P" by simp
      then show ?thesis by (rule replay_covers_added[OF lam' ps f0 df0])
    next
      case False
      from x R'R cov0 obtain c where c: "c \<in> set ?FR" "covers c x" by blast
      have "c \<noteq> r"
      proof
        assume "c = r"
        with c(2) False have "fst x = fst r" by (simp add: covers_def)
        with x R'R inj have "x = r" by blast
        with x rR' show False by simp
      qed
      with c(1) f0set have "\<exists>c \<in> set ?G. covers c x" using c(2) by auto
      then show ?thesis by (rule replay_covers[OF lam' ps f0 df0])
    qed
  qed
  have ord: "sorted_wrt (\<lambda>a b. \<not> contains_start a b) (map (the \<circ> lookup T) ls)"
    unfolding ls_def removeAll_filter_not_eq by (intro sorted_wrt_map_filter ord0)
  show "fold_inv T st'"
    unfolding fold_inv_def using c1 cov dis ord by (simp add: st'_def)
  show "\<not> hidden (foldedRanges st') (fst r)"
  proof
    assume "hidden (foldedRanges st') (fst r)"
    then obtain c where c: "c \<in> set ?F" "fst c < fst r" "fst r < snd c"
      by (auto simp: hidden_iff st'_def)
    from c(1) fsub have "c \<in> set ?G \<or> c \<in> set ?P" by blast
    then show False
    proof
      assume "c \<in> set ?G"
      then have "c \<in> set ?FR" using f0set by simp
      from nh[OF this] c(2,3) show False by simp
    next
      assume "c \<in> set ?P"
      with pset c(2) show False by simp
    qed
  qed
qed

lemma sorted_wrt_pairwise:
  "distinct xs \<Longrightarrow> \<forall>a \<in> set xs. \<forall>b \<in> set xs. a \<noteq> b \<longrightarrow> P a b \<Longrightarrow> sorted_wrt P xs"
  by (induction xs) auto

lemma fold_inv_non_overlapping:
  assumes "fold_inv T st"
  shows "non_overlapping (foldedRanges st)"
    and "non_overlapping (sort_key fst (foldedRanges st))"
proof -
  have d: "distinct (foldedRanges st)"
    and p: "\<forall>a \<in> set (foldedRanges st). \<forall>b \<in> set (foldedRanges st).
          a \<noteq> b \<longrightarrow> disjoint_ranges a b"
    using assms by (simp_all add: fold_inv_def consistent_def)
  show "non_overlapping (foldedRanges st)"
    unfolding non_overlapping_def by (rule sorted_wrt_pairwise[OF d p])
  have d': "distinct (sort_key fst (foldedRanges st))" using d by simp
  have p': "\<forall>a \<in> set (sort_key fst (foldedRanges st)). \<forall>b \<in> set (sort_key fst (foldedRanges st)).
          a \<noteq> b \<longrightarrow> disjoint_ranges a b"
    using p by simp
  show "non_overlapping (sort_key fst (foldedRanges st))"
    unfolding non_overlapping_def by (rule sorted_wrt_pairwise[OF d' p'])
qed

lemma toggleFold_fold_inv:
  assumes "table_ok T" "fold_inv T st" "lookup T l = Some r"
    and "\<not> hidden (foldedRanges st) (fst r)"
  shows "\<exists>st'. toggleFold T l st = Inr st' \<and> fold_inv T st'
    \<and> \<not> hidden (foldedRanges st') (fst r)
    \<and> foldedLines st' = (if l \<in> set (foldedLines st) then removeAll l (foldedLines st)
                          else foldedLines st @ [l])"
proof (cases "l \<in> set (foldedLines st)")
  case True
  from fold_inv_unfold[OF assms(1,2,3) True assms(4)] True show ?thesis by simp
next
  case False
  from fold_inv_fold(1)[OF assms(1,2,3) False assms(4)]
    fold_inv_fold_visible[OF assms(1,2,3) False assms(4)]
    toggleFold_fold[OF assms(3) False] False
  show ?thesis by simp
qed

lemma visible_run_fold_inv:
  assumes "table_ok T"
  shows "fold_inv T st \<Longrightarrow> visible_run T ls st \<Longrightarrow>
    \<exists>st'. toggles T ls st = Inr st' \<and> fold_inv T st'"
proof (induction ls arbitrary: st)
  case Nil
  then show ?case by simp
next
  case (Cons l ls)
  from Cons.prems(2) obtain r where r: "lookup T l = Some r"
    and vis: "\<not> hidden (foldedRanges st) (fst r)"
    by (cases "lookup T l") auto
  from toggleFold_fold_inv[OF assms Cons.prems(1) r vis]
  obtain st1 where st1: "toggleFold T l st = Inr st1" "fold_inv T st1" by blast
  with Cons.prems(2) r have "visible_run T ls st1" by simp
  from Cons.IH[OF st1(2) this] st1(1) show ?case by simp
qed

lemma fold_inv_ranges_subset:
  assumes "table_ok T" "fold_inv T st" "fold_inv T st'"
    and "set (foldedLines st) = set (foldedLines st')"
  shows "set (foldedRanges st) \<subseteq> set (foldedRanges st')"
proof
  fix x assume x: "x \<in> set (foldedRanges st)"
  let ?R = "line_ranges T (foldedLines st)"
  have RR: "line_ranges T (foldedLines st') = ?R"
    using assms(4) by (simp add: line_ranges_def)
  have lam: "laminar ?R" by (rule table_ok_laminar[OF assms(1)])
  have sub: "set (foldedRanges st) \<subseteq> ?R" and sub': "set (foldedRanges st') \<subseteq> ?R"
    using assms(2,3) RR by (simp_all add: fold_inv_def consistent_def)
  have cov: "\<forall>y \<in> ?R. \<exists>c \<in> set (foldedRanges st). covers c y"
    and cov': "\<forall>y \<in> ?R. \<exists>c \<in> set (foldedRanges st'). covers c y"
    and dis: "\<forall>a \<in> set (foldedRanges st). \<forall>b \<in> set (foldedRanges st).
          a \<noteq> b \<longrightarrow> disjoint_ranges a b"
    using assms(2,3) RR by (simp_all add: fold_inv_def)
  have xR: "x \<in> ?R" using x sub by blast
  then obtain c' where c': "c' \<in> set (foldedRanges st')" "covers c' x" using cov' by blast
  then have "c' \<in> ?R" using sub' by blast
  then obtain c where c: "c \<in> set (foldedRanges st)" "covers c c'" using cov by blast
  have vx: "fst x < snd x" by (rule laminar_valid[OF lam xR])
  have "c = x"
  proof (rule ccontr)
    assume "c \<noteq> x"
    with c(1) x dis have "disjoint_ranges c x" by blast
    with c(2) c'(2) vx show False by (auto simp: disjoint_ranges_def covers_def)
  qed
  with c(2) c'(2) have "c' = x" by (auto simp: covers_def prod_eq_iff)
  with c'(1) show "x \<in> set (foldedRanges st')" by simp
qed

subsection \<open>The folded set after a run of toggles\<close>

text \<open>
  Claim C1, as amended. With a well-nested anchor table, after every sequence of
  \<open>toggleFold\<close> calls that starts with nothing folded and toggles only anchored lines
  whose start is not hidden at the time of the call, the folded ranges are pairwise
  non-overlapping. The set keeps them in insertion order; it is the copy that \<open>update\<close>
  sorts which is ascending by start (and non-overlapping as well).
\<close>

theorem visible_toggles_non_overlapping:
  assumes "table_ok T" "visible_run T ls init_state"
  shows "\<exists>st. toggles T ls init_state = Inr st
    \<and> non_overlapping (foldedRanges st)
    \<and> sorted_by_start (sort_key fst (foldedRanges st))
    \<and> non_overlapping (sort_key fst (foldedRanges st))"
proof -
  from visible_run_fold_inv[OF assms(1) fold_inv_init assms(2)]
  obtain st where st: "toggles T ls init_state = Inr st" "fold_inv T st" by blast
  have "sorted_by_start (sort_key fst (foldedRanges st))"
    by (simp add: sorted_by_start_def)
  with st fold_inv_non_overlapping[OF st(2)] show ?thesis by blast
qed

theorem visible_toggles_non_overlapping_witness:
  "table_ok [None, Some (0, 5), Some (10, 30), Some (15, 20)]
   \<and> visible_run [None, Some (0, 5), Some (10, 30), Some (15, 20)] [3, 2, 1, 2] init_state
   \<and> toggles [None, Some (0, 5), Some (10, 30), Some (15, 20)] [3, 2, 1, 2] init_state
       = Inr \<lparr>foldedLines = [3, 1], foldedRanges = [(0, 5), (15, 20)]\<rparr>
   \<and> non_overlapping [(0, 5), (15, 20)]"
proof -
  let ?T = "[None, Some (0, 5), Some (10, 30), Some (15, 20)]"
  have ok: "table_ok ?T"
    by (simp add: table_ok_def lessThan_Suc numeral_eq_Suc)
  have t: "toggles ?T [3, 2, 1, 2] init_state
       = Inr \<lparr>foldedLines = [3, 1], foldedRanges = [(0, 5), (15, 20)]\<rparr>"
    by (simp add: toggleFold_def lookup_def init_state_def addFold_def later_ranges_def)
  have v: "visible_run ?T [3, 2, 1, 2] init_state"
    by (simp add: toggleFold_def lookup_def init_state_def addFold_def hidden_def)
  show ?thesis
    using ok v t visible_toggles_non_overlapping[OF ok v] by simp
qed

text \<open>
  The claim as stated fails on both counts. Lines 1, 2 and 3 are anchored at \<open>(0, 5)\<close>,
  \<open>(10, 30)\<close> and \<open>(15, 20)\<close>. Folding line 2, then line 3, whose start is hidden by then,
  then line 1 leaves three ranges in the set: \<open>(15, 20)\<close> lies inside \<open>(10, 30)\<close>, and
  \<open>(0, 5)\<close> comes last. Toggling only visible lines does not help when anchor ranges
  cross: with the anchors \<open>(0, 10)\<close>, \<open>(8, 9)\<close>, \<open>(9, 30)\<close> and \<open>(12, 13)\<close> on lines 1 to 4,
  folding line 1 over the folded lines 2 and 3 keeps \<open>(0, 10)\<close> only, line 4 is then visible,
  and unfolding line 1 brings \<open>(9, 30)\<close> back beside \<open>(12, 13)\<close>.
\<close>

theorem toggles_overlap_counterexample:
  "table_ok [None, Some (0, 5), Some (10, 30), Some (15, 20)]
   \<and> toggles [None, Some (0, 5), Some (10, 30), Some (15, 20)] [2, 3, 1] init_state
       = Inr \<lparr>foldedLines = [2, 3, 1], foldedRanges = [(10, 30), (15, 20), (0, 5)]\<rparr>
   \<and> \<not> non_overlapping [(10, 30), (15, 20), (0, 5)]
   \<and> \<not> sorted_by_start [(10, 30), (15, 20), (0, 5)]
   \<and> visible_run [None, Some (0, 10), Some (8, 9), Some (9, 30), Some (12, 13)]
         [2, 3, 1, 4, 1] init_state
   \<and> toggles [None, Some (0, 10), Some (8, 9), Some (9, 30), Some (12, 13)]
         [2, 3, 1, 4, 1] init_state
       = Inr \<lparr>foldedLines = [2, 3, 4], foldedRanges = [(9, 30), (8, 9), (12, 13)]\<rparr>
   \<and> \<not> non_overlapping [(9, 30), (8, 9), (12, 13)]"
proof -
  let ?T = "[None, Some (0, 5), Some (10, 30), Some (15, 20)]"
  have ok: "table_ok ?T"
    by (simp add: table_ok_def lessThan_Suc numeral_eq_Suc)
  have t: "toggles ?T [2, 3, 1] init_state
       = Inr \<lparr>foldedLines = [2, 3, 1], foldedRanges = [(10, 30), (15, 20), (0, 5)]\<rparr>"
    by (simp add: toggleFold_def lookup_def init_state_def addFold_def)
  have n: "\<not> non_overlapping [(10, 30), (15, 20), (0, 5)]"
    by (simp add: non_overlapping_def disjoint_ranges_def)
  have s: "\<not> sorted_by_start [(10, 30), (15, 20), (0, 5)]"
    by (simp add: sorted_by_start_def)
  have x: "visible_run [None, Some (0, 10), Some (8, 9), Some (9, 30), Some (12, 13)]
         [2, 3, 1, 4, 1] init_state
   \<and> toggles [None, Some (0, 10), Some (8, 9), Some (9, 30), Some (12, 13)]
         [2, 3, 1, 4, 1] init_state
       = Inr \<lparr>foldedLines = [2, 3, 4], foldedRanges = [(9, 30), (8, 9), (12, 13)]\<rparr>
   \<and> \<not> non_overlapping [(9, 30), (8, 9), (12, 13)]"
    by (simp add: toggleFold_def lookup_def init_state_def addFold_def hidden_def
        later_ranges_def non_overlapping_def disjoint_ranges_def)
  show ?thesis using ok t n s x by simp
qed

subsection \<open>Toggling a line twice\<close>

text \<open>
  Claim C3, as amended. With a well-nested anchor table, in every state reached from the
  empty one by toggles of visible lines, toggling twice an anchored line whose start is
  not hidden succeeds and restores \<open>foldedLines\<close> and \<open>foldedRanges\<close> as sets: the same
  lines and the same ranges are folded as before the first call. (The insertion order of
  the two sets may differ.)
\<close>

theorem toggle_twice_restores:
  assumes "table_ok T" "visible_run T ls init_state" "toggles T ls init_state = Inr st"
    and "lookup T L = Some r" "\<not> hidden (foldedRanges st) (fst r)"
  shows "\<exists>st1 st2. toggleFold T L st = Inr st1 \<and> toggleFold T L st1 = Inr st2
    \<and> (L \<in> set (foldedLines st1) \<longleftrightarrow> L \<notin> set (foldedLines st))
    \<and> set (foldedLines st2) = set (foldedLines st)
    \<and> set (foldedRanges st2) = set (foldedRanges st)"
proof -
  from visible_run_fold_inv[OF assms(1) fold_inv_init assms(2)] assms(3)
  have i0: "fold_inv T st" by auto
  from toggleFold_fold_inv[OF assms(1) i0 assms(4,5)]
  obtain st1 where st1: "toggleFold T L st = Inr st1" "fold_inv T st1"
    "\<not> hidden (foldedRanges st1) (fst r)"
    "foldedLines st1 = (if L \<in> set (foldedLines st) then removeAll L (foldedLines st)
                          else foldedLines st @ [L])"
    by blast
  from toggleFold_fold_inv[OF assms(1) st1(2) assms(4) st1(3)]
  obtain st2 where st2: "toggleFold T L st1 = Inr st2" "fold_inv T st2"
    "foldedLines st2 = (if L \<in> set (foldedLines st1) then removeAll L (foldedLines st1)
                          else foldedLines st1 @ [L])"
    by blast
  have m: "L \<in> set (foldedLines st1) \<longleftrightarrow> L \<notin> set (foldedLines st)"
    using st1(4) by simp
  have ls: "set (foldedLines st2) = set (foldedLines st)"
    using st1(4) st2(3) by auto
  have "set (foldedRanges st2) \<subseteq> set (foldedRanges st)"
    by (rule fold_inv_ranges_subset[OF assms(1) st2(2) i0 ls])
  moreover have "set (foldedRanges st) \<subseteq> set (foldedRanges st2)"
    by (rule fold_inv_ranges_subset[OF assms(1) i0 st2(2) ls[symmetric]])
  ultimately have "set (foldedRanges st2) = set (foldedRanges st)" by blast
  with st1(1) st2(1) m ls show ?thesis by blast
qed

theorem toggle_twice_restores_witness:
  "table_ok [None, Some (0, 20), Some (5, 10)]
   \<and> visible_run [None, Some (0, 20), Some (5, 10)] [2, 1] init_state
   \<and> toggles [None, Some (0, 20), Some (5, 10)] [2, 1] init_state
       = Inr \<lparr>foldedLines = [2, 1], foldedRanges = [(0, 20)]\<rparr>
   \<and> lookup [None, Some (0, 20), Some (5, 10)] 1 = Some (0, 20)
   \<and> \<not> hidden [(0, 20)] 0
   \<and> toggles [None, Some (0, 20), Some (5, 10)] [1, 1]
         \<lparr>foldedLines = [2, 1], foldedRanges = [(0, 20)]\<rparr>
       = Inr \<lparr>foldedLines = [2, 1], foldedRanges = [(0, 20)]\<rparr>"
proof -
  let ?T = "[None, Some (0, 20), Some (5, 10)]"
  let ?st = "\<lparr>foldedLines = [2, 1], foldedRanges = [(0, 20)]\<rparr>"
  have ok: "table_ok ?T"
    by (simp add: table_ok_def lessThan_Suc numeral_eq_Suc)
  have v: "visible_run ?T [2, 1] init_state"
    by (simp add: toggleFold_def lookup_def init_state_def addFold_def hidden_def)
  have t: "toggles ?T [2, 1] init_state = Inr ?st"
    by (simp add: toggleFold_def lookup_def init_state_def addFold_def)
  have l: "lookup ?T 1 = Some (0, 20)" by (simp add: lookup_def)
  have h: "\<not> hidden (foldedRanges ?st) (fst (0 :: int, 20 :: int))" by (simp add: hidden_def)
  have tt: "toggles ?T [1, 1] ?st = Inr ?st"
    by (simp add: toggleFold_def lookup_def addFold_def later_ranges_def replay_def)
  show ?thesis
    using ok v t l h tt toggle_twice_restores[OF ok v t l h] by simp
qed

text \<open>
  The claim as stated fails for a line whose start is hidden. Line 1 is anchored at
  \<open>(0, 20)\<close> and line 2 at \<open>(5, 10)\<close>; after folding line 2 and then line 1 the set holds
  \<open>(0, 20)\<close> alone. Toggling line 2 twice in that state unfolds it, finding no range to
  delete, and folds it again, which adds \<open>(5, 10)\<close> beside \<open>(0, 20)\<close>. It fails for a visible
  line as well when anchor ranges cross: with the anchors \<open>(0, 10)\<close>, \<open>(8, 9)\<close>, \<open>(9, 30)\<close>
  and \<open>(12, 13)\<close> on lines 1 to 4 and the lines 2, 3, 1 and 4 folded in this order,
  toggling line 1 twice turns the folded range \<open>(0, 10)\<close> into \<open>(0, 30)\<close>.
\<close>

theorem toggle_twice_counterexample:
  "toggles [None, Some (0, 20), Some (5, 10)] [2, 1] init_state
       = Inr \<lparr>foldedLines = [2, 1], foldedRanges = [(0, 20)]\<rparr>
   \<and> toggles [None, Some (0, 20), Some (5, 10)] [2, 2]
         \<lparr>foldedLines = [2, 1], foldedRanges = [(0, 20)]\<rparr>
       = Inr \<lparr>foldedLines = [1, 2], foldedRanges = [(0, 20), (5, 10)]\<rparr>
   \<and> set [(0, 20), (5, 10)] \<noteq> set [(0 :: int, 20 :: int)]
   \<and> visible_run [None, Some (0, 10), Some (8, 9), Some (9, 30), Some (12, 13)]
         [2, 3, 1, 4] init_state
   \<and> toggles [None, Some (0, 10), Some (8, 9), Some (9, 30), Some (12, 13)]
         [2, 3, 1, 4] init_state
       = Inr \<lparr>foldedLines = [2, 3, 1, 4], foldedRanges = [(0, 10), (12, 13)]\<rparr>
   \<and> \<not> hidden [(0, 10), (12, 13)] 0
   \<and> toggles [None, Some (0, 10), Some (8, 9), Some (9, 30), Some (12, 13)] [1, 1]
         \<lparr>foldedLines = [2, 3, 1, 4], foldedRanges = [(0, 10), (12, 13)]\<rparr>
       = Inr \<lparr>foldedLines = [2, 3, 4, 1], foldedRanges = [(0, 30), (12, 13)]\<rparr>"
  by (simp add: toggleFold_def lookup_def init_state_def addFold_def hidden_def later_ranges_def)

subsection \<open>The line diff\<close>

lemma diff_prefix_at:
  assumes "differ_only_at newL prevL k"
  shows "i \<le> k \<Longrightarrow> diff_prefix newL prevL (int (length newL)) (int (k - i)) = int k"
proof (induction i)
  case 0
  have "nth_opt newL (int k) \<noteq> nth_opt prevL (int k)"
    using assms by (simp add: differ_only_at_def nth_opt_def)
  then show ?case by (subst diff_prefix.simps) simp
next
  case (Suc i)
  let ?j = "k - Suc i"
  have j: "?j < k" "?j < length prevL" "Suc ?j = k - i"
    using Suc.prems assms by (auto simp: differ_only_at_def)
  have eq: "nth_opt newL (int ?j) = nth_opt prevL (int ?j)"
    using assms j(1,2) by (simp add: differ_only_at_def nth_opt_def)
  have lt: "int ?j < int (length newL)"
    using assms j(2) by (simp add: differ_only_at_def)
  have "diff_prefix newL prevL (int (length newL)) (int ?j)
      = diff_prefix newL prevL (int (length newL)) (int ?j + 1)"
    using eq lt by (subst diff_prefix.simps) simp
  also have "int ?j + 1 = int (k - i)" using j(3) by linarith
  finally show ?case using Suc.IH Suc.prems by simp
qed

lemma diff_suffix_at:
  assumes "differ_only_at newL prevL k"
  shows "k < n \<Longrightarrow> n \<le> length newL \<Longrightarrow>
    diff_suffix newL prevL n (int n) = (k, int k)"
proof (induction n)
  case 0
  then show ?case by simp
next
  case (Suc n)
  show ?case
  proof (cases "n = k")
    case True
    have "nth_opt newL (int k) \<noteq> nth_opt prevL (int k)"
      using assms by (simp add: differ_only_at_def nth_opt_def)
    with True show ?thesis by simp
  next
    case False
    with Suc.prems have kn: "k < n" "n < length prevL"
      using assms by (auto simp: differ_only_at_def)
    have "nth_opt newL (int n) = nth_opt prevL (int n)"
      using assms kn False by (simp add: differ_only_at_def nth_opt_def)
    then show ?thesis using Suc.IH kn Suc.prems by simp
  qed
qed

text \<open>
  Claim C6. When the new and the previous line arrays have the same length and differ at
  exactly one index \<open>k\<close>, the prefix scan stops at \<open>k\<close>, the suffix scan stops with both
  ends at \<open>k\<close>, the effect takes the single-line branch, and the only change to the line
  elements is the new content of line \<open>k\<close>.
\<close>

theorem diff_single_line:
  assumes "differ_only_at newL prevL k"
    and "lineCount st = length prevL" "prevLines st = prevL"
    and "length (dom_lines st) = length prevL"
  shows "diff_prefix newL prevL (int (length newL)) 0 = int k
    \<and> diff_suffix newL prevL (length newL) (int (lineCount st)) = (k, int k)
    \<and> render_lines st newL =
        Inr \<lparr>prevLines = newL, lineCount = length newL,
             dom_lines = (dom_lines st)[k := newL ! k @ [newline]]\<rparr>"
proof -
  have len: "length newL = length prevL" and k: "k < length prevL"
    using assms(1) by (simp_all add: differ_only_at_def)
  have p: "diff_prefix newL prevL (int (length newL)) 0 = int k"
    using diff_prefix_at[OF assms(1), of k] by simp
  have s: "diff_suffix newL prevL (length newL) (int (lineCount st)) = (k, int k)"
    using diff_suffix_at[OF assms(1), of "length newL"] k len assms(2) by simp
  have h: "html_line (nth_opt newL (int k)) = newL ! k @ [newline]"
    using k len by (simp add: html_line_def nth_opt_def)
  have "render_lines st newL =
        Inr \<lparr>prevLines = newL, lineCount = length newL,
             dom_lines = (dom_lines st)[k := newL ! k @ [newline]]\<rparr>"
    using k assms(3,4) by (simp add: render_lines_def p s[unfolded assms(2)] assms(2) h)
  with p s show ?thesis by simp
qed

theorem diff_single_line_witness:
  "differ_only_at [''a'', ''x'', ''c''] [''a'', ''b'', ''c''] 1
   \<and> render_lines \<lparr>prevLines = [''a'', ''b'', ''c''], lineCount = 3,
                    dom_lines = [''a'' @ [newline], ''b'' @ [newline], ''c'' @ [newline]]\<rparr>
        [''a'', ''x'', ''c'']
      = Inr \<lparr>prevLines = [''a'', ''x'', ''c''], lineCount = 3,
              dom_lines = [''a'' @ [newline], ''x'' @ [newline], ''c'' @ [newline]]\<rparr>"
proof -
  have d: "differ_only_at [''a'', ''x'', ''c''] [''a'', ''b'', ''c''] 1"
    by (simp add: differ_only_at_def lessThan_Suc numeral_eq_Suc)
  show ?thesis
    using d diff_single_line[OF d, of "\<lparr>prevLines = [''a'', ''b'', ''c''], lineCount = 3,
                    dom_lines = [''a'' @ [newline], ''b'' @ [newline], ''c'' @ [newline]]\<rparr>"]
    by simp
qed

subsection \<open>The reduction of the candidates to the anchor table\<close>

lemma lookup_array_set:
  "lookup (array_set fp i v) j = (if j = i then Some v else lookup fp j)"
  by (auto simp: lookup_def array_set_def nth_append)

lemma reduce_folds_grows:
  "lookup fp i = Some r \<Longrightarrow>
   \<exists>r'. lookup (reduce_folds str fs fp) i = Some r' \<and> snd r \<le> snd r'"
proof (induction fs arbitrary: fp r)
  case Nil
  then show ?case by simp
next
  case (Cons f fs)
  obtain s e where f: "f = (s, e)" by (cases f)
  let ?fp = "(case lookup fp (numLines str 0 s) of
              None \<Rightarrow> array_set fp (numLines str 0 s) (s, e)
            | Some r \<Rightarrow>
                if e > snd r then array_set fp (numLines str 0 s) (s, e)
                else fp)"
  have "\<exists>r1. lookup ?fp i = Some r1 \<and> snd r \<le> snd r1"
    using Cons.prems by (cases r) (auto simp: lookup_array_set split: option.splits)
  then obtain r1 where r1: "lookup ?fp i = Some r1" "snd r \<le> snd r1" by blast
  from Cons.IH[OF r1(1)] obtain r' where
    "lookup (reduce_folds str fs ?fp) i = Some r'" "snd r1 \<le> snd r'" by blast
  with r1(2) show ?case by (auto simp: f Let_def)
qed

lemma reduce_folds_entry:
  "(s, e) \<in> set fs \<Longrightarrow>
   \<exists>r. lookup (reduce_folds str fs fp) (numLines str 0 s) = Some r \<and> e \<le> snd r"
proof (induction fs arbitrary: fp)
  case Nil
  then show ?case by simp
next
  case (Cons f fs)
  obtain s' e' where f: "f = (s', e')" by (cases f)
  let ?fp = "(case lookup fp (numLines str 0 s') of
              None \<Rightarrow> array_set fp (numLines str 0 s') (s', e')
            | Some r \<Rightarrow>
                if e' > snd r then array_set fp (numLines str 0 s') (s', e')
                else fp)"
  show ?case
  proof (cases "(s, e) = f")
    case True
    then have "\<exists>r1. lookup ?fp (numLines str 0 s) = Some r1 \<and> e \<le> snd r1"
      by (auto simp: f lookup_array_set split: option.splits)
    then obtain r1 where r1: "lookup ?fp (numLines str 0 s) = Some r1" "e \<le> snd r1" by blast
    from reduce_folds_grows[OF r1(1), of str fs] r1(2) show ?thesis
      by (auto simp: f Let_def)
  next
    case False
    with Cons.prems have "(s, e) \<in> set fs" by simp
    from Cons.IH[OF this, of ?fp] show ?thesis by (simp add: f Let_def)
  qed
qed

lemma reduce_folds_origin:
  "lookup (reduce_folds str fs fp) i = Some r \<Longrightarrow>
   lookup fp i = Some r \<or> (r \<in> set fs \<and> numLines str 0 (fst r) = i)"
proof (induction fs arbitrary: fp)
  case Nil
  then show ?case by simp
next
  case (Cons f fs)
  obtain s' e' where f: "f = (s', e')" by (cases f)
  let ?fp = "(case lookup fp (numLines str 0 s') of
              None \<Rightarrow> array_set fp (numLines str 0 s') (s', e')
            | Some r \<Rightarrow>
                if e' > snd r then array_set fp (numLines str 0 s') (s', e')
                else fp)"
  from Cons.prems have "lookup (reduce_folds str fs ?fp) i = Some r"
    by (simp add: f Let_def)
  from Cons.IH[OF this] have "lookup ?fp i = Some r \<or> (r \<in> set fs \<and> numLines str 0 (fst r) = i)" .
  then show ?case
  proof
    assume "lookup ?fp i = Some r"
    then have "lookup fp i = Some r \<or> (r = (s', e') \<and> numLines str 0 s' = i)"
      by (auto simp: lookup_array_set split: option.splits if_splits)
    then show ?thesis by (auto simp: f)
  next
    assume "r \<in> set fs \<and> numLines str 0 (fst r) = i"
    then show ?thesis by simp
  qed
qed

lemma lookup_Nil: "lookup [] i = None"
  by (simp add: lookup_def)

text \<open>
  Claim C7, as amended. Collection does not check the candidates: every collected range
  \<open>(s, e)\<close>, malformed or not, leaves an entry in the anchor table at the line of its
  start, which is a collected range of that line that ends at or after \<open>e\<close>. A range is
  left out only when another range of its line takes the entry, and a range that is alone
  on its line is the entry.
\<close>

theorem createFolds_keeps_candidates:
  assumes "collect_folds str matchTags matchBrackets providers = Inr folds"
    and "(s, e) \<in> set folds"
  shows "\<exists>st r. createFolds str matchTags matchBrackets providers = Inr st
    \<and> lookup (foldPositions st) (numLines str 0 s) = Some r
    \<and> r \<in> set folds \<and> numLines str 0 (fst r) = numLines str 0 s \<and> e \<le> snd r
    \<and> ((\<forall>r' \<in> set folds. numLines str 0 (fst r') = numLines str 0 s \<longrightarrow> r' = (s, e))
         \<longrightarrow> r = (s, e))"
proof -
  let ?st = "\<lparr>code = str, view_text = str,
               foldPositions = reduce_folds str folds [], folded = init_state\<rparr>"
  have c: "createFolds str matchTags matchBrackets providers = Inr ?st"
    using assms(1) by (simp add: createFolds_def)
  from reduce_folds_entry[OF assms(2), of str "[]"] obtain r where
    r: "lookup (reduce_folds str folds []) (numLines str 0 s) = Some r" "e \<le> snd r" by blast
  from reduce_folds_origin[OF r(1)] have o: "r \<in> set folds" "numLines str 0 (fst r) = numLines str 0 s"
    by (simp_all add: lookup_Nil)
  have u: "(\<forall>r' \<in> set folds. numLines str 0 (fst r') = numLines str 0 s \<longrightarrow> r' = (s, e))
         \<longrightarrow> r = (s, e)"
    using o by blast
  have l: "lookup (foldPositions ?st) (numLines str 0 s) = Some r"
    using r(1) by simp
  show ?thesis
    using c l o r(2) u by (intro exI[of _ ?st] exI[of _ r]) blast
qed

theorem createFolds_keeps_candidates_witness:
  "collect_folds ''abcdef'' None None [as_provider [(5, 3)]] = Inr [(5, 3)]
   \<and> createFolds ''abcdef'' None None [as_provider [(5, 3)]]
       = Inr \<lparr>code = ''abcdef'', view_text = ''abcdef'',
               foldPositions = [None, Some (5, 3)], folded = init_state\<rparr>"
proof -
  have c: "collect_folds ''abcdef'' None None [as_provider [(5, 3)]] = Inr [(5, 3)]"
    by (simp add: collect_folds_def as_provider_def)
  have n: "numLines ''abcdef'' 0 5 = 1"
    by (simp add: numLines_def numLines_loop.simps indexOf_def newline_def)
  have "createFolds ''abcdef'' None None [as_provider [(5, 3)]]
       = Inr \<lparr>code = ''abcdef'', view_text = ''abcdef'',
               foldPositions = [None, Some (5, 3)], folded = init_state\<rparr>"
    by (simp add: createFolds_def c n lookup_def array_set_def)
  with c createFolds_keeps_candidates[OF c, of 5 3] show ?thesis by simp
qed

text \<open>
  The claim as stated fails: the range \<open>(5, 3)\<close> of a provider is written to the anchor
  table and can be folded, and the block comment provider itself returns the range
  \<open>(2, 1)\<close> for an unterminated comment \<open>/*\<close> followed by a line feed.
\<close>

theorem createFolds_malformed_counterexample:
  "createFolds ''abcdef'' None None [as_provider [(5, 3)]]
       = Inr \<lparr>code = ''abcdef'', view_text = ''abcdef'',
               foldPositions = [None, Some (5, 3)], folded = init_state\<rparr>
   \<and> folding_toggleFold [None, Some (5, 3)] 1 None init_state
       = Inr (True, \<lparr>foldedLines = [1], foldedRanges = [(5, 3)]\<rparr>)
   \<and> blockCommentFolding [Token ''comment'' None (Text (''/*'' @ [newline])) 3]
        (''/*'' @ [newline]) ''javascript'' c_like = [(2, 1)]"
proof -
  have c: "collect_folds ''abcdef'' None None [as_provider [(5, 3)]] = Inr [(5, 3)]"
    by (simp add: collect_folds_def as_provider_def)
  have n: "numLines ''abcdef'' 0 5 = 1"
    by (simp add: numLines_def numLines_loop.simps indexOf_def newline_def)
  have 1: "createFolds ''abcdef'' None None [as_provider [(5, 3)]]
       = Inr \<lparr>code = ''abcdef'', view_text = ''abcdef'',
               foldPositions = [None, Some (5, 3)], folded = init_state\<rparr>"
    by (simp add: createFolds_def c n lookup_def array_set_def)
  have 2: "folding_toggleFold [None, Some (5, 3)] 1 None init_state
       = Inr (True, \<lparr>foldedLines = [1], foldedRanges = [(5, 3)]\<rparr>)"
    by (simp add: folding_toggleFold_def loose_neq_def lookup_def toggleFold_def init_state_def
        addFold_def)
  have 3: "blockCommentFolding [Token ''comment'' None (Text (''/*'' @ [newline])) 3]
        (''/*'' @ [newline]) ''javascript'' c_like = [(2, 1)]"
    by (simp add: blockCommentFolding_def aliasType_def isMultiline_def js_slice_def c_like_def
        starts_at_def)
  show ?thesis using 1 2 3 by simp
qed

subsection \<open>The text of the view after update\<close>

lemma chain_bounds: "chain c k rs \<Longrightarrow> 0 \<le> k \<and> k \<le> int (length c)"
proof (induction rs arbitrary: k)
  case Nil
  then show ?case by simp
next
  case (Cons r rs)
  obtain s e where r: "r = (s, e)" by (cases r)
  from Cons.prems have "0 \<le> k" "k \<le> s" "s \<le> e" "chain c e rs" by (simp_all add: r)
  with Cons.IH[of e] show ?case by simp
qed

lemma js_slice_inside:
  "0 \<le> a \<Longrightarrow> a \<le> b \<Longrightarrow> b \<le> int (length c) \<Longrightarrow>
   js_slice c a b = drop (nat a) (take (nat b) c)"
  by (simp add: js_slice_def Let_def min_def drop_take nat_diff_distrib)

lemma js_slice_from_inside:
  "0 \<le> a \<Longrightarrow> a \<le> int (length c) \<Longrightarrow> js_slice_from c a = drop (nat a) c"
  by (simp add: js_slice_from_def js_slice_def Let_def min_def)

lemma replaced_prefix:
  "chain c k rs \<Longrightarrow>
   take (nat k) (foldr (replace_range ph) rs c) = take (nat k) c
   \<and> nat k \<le> length (foldr (replace_range ph) rs c)"
proof (induction rs arbitrary: k)
  case Nil
  then show ?case by auto
next
  case (Cons r rs)
  obtain s e where r: "r = (s, e)" by (cases r)
  from Cons.prems have k: "0 \<le> k" "k \<le> s" "s \<le> e" and ch: "chain c e rs"
    by (simp_all add: r)
  let ?C = "foldr (replace_range ph) rs c"
  from Cons.IH[OF ch] have ih: "take (nat e) ?C = take (nat e) c" "nat e \<le> length ?C" by simp_all
  have e: "e \<le> int (length c)" using chain_bounds[OF ch] by simp
  have ts: "take (nat s) ?C = take (nat s) c"
  proof -
    have "take (nat s) ?C = take (nat s) (take (nat e) ?C)" using k by (simp add: min_def)
    also have "\<dots> = take (nat s) (take (nat e) c)" by (simp only: ih(1))
    also have "\<dots> = take (nat s) c" using k by (simp add: min_def)
    finally show ?thesis .
  qed
  have ls: "length (take (nat s) ?C) = nat s" using ih(2) k by simp
  have "foldr (replace_range ph) (r # rs) c = take (nat s) ?C @ ph @ drop (nat e) ?C"
    by (simp add: r replace_range_def)
  then have f: "foldr (replace_range ph) (r # rs) c = take (nat s) c @ ph @ drop (nat e) ?C"
    by (simp add: ts)
  have lc: "length (take (nat s) c) = nat s" using ls ts by simp
  have "take (nat k) (foldr (replace_range ph) (r # rs) c) = take (nat k) (take (nat s) c)"
    unfolding f using k lc by simp
  also have "\<dots> = take (nat k) c" using k by (simp add: min_def)
  finally have 1: "take (nat k) (foldr (replace_range ph) (r # rs) c) = take (nat k) c" .
  have 2: "nat k \<le> length (foldr (replace_range ph) (r # rs) c)"
    unfolding f using k lc by simp
  from 1 2 show ?case by simp
qed

lemma update_loop_replaced:
  "chain c pos rs \<Longrightarrow>
   update_loop c v pos rs = v @ drop (nat pos) (foldr (replace_range [nbsp, nbsp, nbsp]) rs c)"
proof (induction rs arbitrary: v pos)
  case Nil
  then show ?case by (simp add: js_slice_from_inside)
next
  case (Cons r rs)
  obtain s e where r: "r = (s, e)" by (cases r)
  from Cons.prems have k: "0 \<le> pos" "pos \<le> s" "s \<le> e" and ch: "chain c e rs"
    by (simp_all add: r)
  let ?C = "foldr (replace_range [nbsp, nbsp, nbsp]) rs c"
  have e: "e \<le> int (length c)" using chain_bounds[OF ch] by simp
  from replaced_prefix[OF ch] have pe: "take (nat e) ?C = take (nat e) c" "nat e \<le> length ?C"
    by simp_all
  have ts: "take (nat s) ?C = take (nat s) c"
  proof -
    have "take (nat s) ?C = take (nat s) (take (nat e) ?C)" using k by (simp add: min_def)
    also have "\<dots> = take (nat s) (take (nat e) c)" by (simp only: pe(1))
    also have "\<dots> = take (nat s) c" using k by (simp add: min_def)
    finally show ?thesis .
  qed
  have lc: "length (take (nat s) c) = nat s" using e k by simp
  have sl: "js_slice c pos s = drop (nat pos) (take (nat s) c)"
    using k e by (simp add: js_slice_inside)
  have "update_loop c v pos (r # rs) = update_loop c (v @ js_slice c pos s @ [nbsp, nbsp, nbsp]) e rs"
    by (simp add: r)
  also have "\<dots> = (v @ js_slice c pos s @ [nbsp, nbsp, nbsp]) @ drop (nat e) ?C"
    by (rule Cons.IH[OF ch])
  also have "\<dots> = v @ drop (nat pos) (take (nat s) c @ [nbsp, nbsp, nbsp] @ drop (nat e) ?C)"
    using k lc by (simp add: sl)
  also have "take (nat s) c @ [nbsp, nbsp, nbsp] @ drop (nat e) ?C = foldr (replace_range [nbsp, nbsp, nbsp]) (r # rs) c"
    by (simp add: r replace_range_def ts)
  finally show ?case .
qed

lemma sorted_chain:
  "sorted (map fst xs) \<Longrightarrow> sorted_wrt disjoint_ranges xs \<Longrightarrow>
   \<forall>r \<in> set xs. k \<le> fst r \<and> fst r < snd r \<and> snd r \<le> int (length c) \<Longrightarrow>
   0 \<le> k \<Longrightarrow> k \<le> int (length c) \<Longrightarrow> chain c k xs"
proof (induction xs arbitrary: k)
  case Nil
  then show ?case by simp
next
  case (Cons r xs)
  obtain s e where r: "r = (s, e)" by (cases r)
  have v: "k \<le> s" "s < e" "e \<le> int (length c)" using Cons.prems(3) by (simp_all add: r)
  have after: "\<forall>r' \<in> set xs. e \<le> fst r' \<and> fst r' < snd r' \<and> snd r' \<le> int (length c)"
  proof
    fix r' assume r': "r' \<in> set xs"
    then have "s \<le> fst r'" using Cons.prems(1) by (auto simp: r)
    moreover have "fst r' < snd r'" "snd r' \<le> int (length c)" using Cons.prems(3) r' by auto
    moreover have "e \<le> fst r' \<or> snd r' \<le> s"
      using Cons.prems(2) r' by (auto simp: r disjoint_ranges_def)
    ultimately show "e \<le> fst r' \<and> fst r' < snd r' \<and> snd r' \<le> int (length c)" by linarith
  qed
  have "chain c e xs"
    using Cons.IH[OF _ _ after] Cons.prems(1,2,4) v by simp
  with v Cons.prems(4) show ?case by (simp add: r)
qed

lemma sorted_wrt_sym_pairwise:
  "sorted_wrt P xs \<Longrightarrow> (\<And>a b. P a b \<Longrightarrow> P b a) \<Longrightarrow>
   \<forall>a \<in> set xs. \<forall>b \<in> set xs. a \<noteq> b \<longrightarrow> P a b"
  by (induction xs) auto

lemma non_overlapping_distinct:
  "non_overlapping rs \<Longrightarrow> \<forall>r \<in> set rs. fst r < snd r \<Longrightarrow> distinct rs"
proof (induction rs)
  case Nil
  then show ?case by simp
next
  case (Cons r rs)
  have "r \<notin> set rs"
  proof
    assume "r \<in> set rs"
    with Cons.prems(1) have "disjoint_ranges r r" by (simp add: non_overlapping_Cons)
    with Cons.prems(2) show False by (simp add: disjoint_ranges_def)
  qed
  with Cons show ?case by (simp add: non_overlapping_Cons)
qed

lemma non_overlapping_sort:
  assumes "non_overlapping rs" "\<forall>r \<in> set rs. fst r < snd r"
  shows "non_overlapping (sort_key fst rs)"
proof -
  have d: "distinct rs" by (rule non_overlapping_distinct[OF assms])
  have p: "\<forall>a \<in> set rs. \<forall>b \<in> set rs. a \<noteq> b \<longrightarrow> disjoint_ranges a b"
    using assms(1) unfolding non_overlapping_def
    by (rule sorted_wrt_sym_pairwise) (auto simp: disjoint_ranges_def)
  have d': "distinct (sort_key fst rs)" using d by simp
  have p': "\<forall>a \<in> set (sort_key fst rs). \<forall>b \<in> set (sort_key fst rs).
      a \<noteq> b \<longrightarrow> disjoint_ranges a b"
    using p by simp
  show ?thesis unfolding non_overlapping_def by (rule sorted_wrt_pairwise[OF d' p'])
qed

lemma update_view_text:
  assumes "valid_ranges rs" "non_overlapping rs" "\<forall>(s, e) \<in> set rs. e \<le> int (length c)"
  shows "update_loop c [] 0 (sort_key fst rs) = replaced_text [nbsp, nbsp, nbsp] c rs"
proof -
  have v: "\<forall>r \<in> set rs. fst r < snd r" using assms(1) by (auto simp: valid_ranges_def)
  have no: "sorted_wrt disjoint_ranges (sort_key fst rs)"
    using non_overlapping_sort[OF assms(2) v] by (simp add: non_overlapping_def)
  have b: "\<forall>r \<in> set (sort_key fst rs). 0 \<le> fst r \<and> fst r < snd r \<and> snd r \<le> int (length c)"
    using assms(1,3) by (auto simp: valid_ranges_def)
  have "chain c 0 (sort_key fst rs)"
    by (rule sorted_chain[OF _ no b]) simp_all
  from update_loop_replaced[OF this, of "[]"] show ?thesis
    by (simp add: replaced_text_def)
qed

lemma scenario_createFolds:
  "createFolds scenario_text None None
     [as_provider (blockCommentFolding scenario_tokens scenario_text ''javascript'' c_like)]
   = Inr scenario_created"
proof -
  have b: "blockCommentFolding scenario_tokens scenario_text ''javascript'' c_like = [(4, 9)]"
    by (simp add: blockCommentFolding_def scenario_tokens_def scenario_text_def aliasType_def
        isMultiline_def js_slice_def c_like_def starts_at_def)
  have n: "numLines scenario_text 0 4 = 2"
    by (simp add: scenario_text_def numLines_def numLines_loop.simps indexOf_def newline_def)
  show ?thesis
    by (simp add: createFolds_def collect_folds_def as_provider_def b n lookup_def array_set_def
        scenario_created_def numeral_2_eq_2)
qed

lemma scenario_toggle:
  "folding_toggleFold (foldPositions scenario_created) 2 None (folded scenario_created)
   = Inr (True, folded scenario_folded)"
  by (simp add: scenario_created_def scenario_folded_def folding_toggleFold_def loose_neq_def
      lookup_def toggleFold_def init_state_def addFold_def)

lemma scenario_view:
  "view_text (update scenario_folded)
   = ''A'' @ [newline] @ ''/*'' @ [nbsp, nbsp, nbsp] @ ''*/'' @ [newline] @ ''B''"
  by (simp add: update_def scenario_folded_def scenario_created_def scenario_text_def
      js_slice_def js_slice_from_def)

text \<open>
  Claim C5, as amended. \<open>update\<close> leaves the full text as it is, and when the folded
  ranges are valid, pairwise non-overlapping and inside the text, the text of the view is
  the full text with every folded range replaced by the placeholder of three no-break
  spaces (U+00A0). In the scenario the block comment provider gives the range \<open>(4, 9)\<close>,
  the inside of the comment without its delimiters, on line 2; after folding it the view
  is \<open>A\<close>, then \<open>/*\<close>, three no-break spaces and \<open>*/\<close>, then \<open>B\<close>, on three lines, and
  \<open>fullCode\<close> is still the original text.
\<close>

theorem update_replaces_folded_ranges:
  "fullCode (update st) = fullCode st
   \<and> (valid_ranges (foldedRanges (folded st)) \<and> non_overlapping (foldedRanges (folded st))
        \<and> (\<forall>(s, e) \<in> set (foldedRanges (folded st)). e \<le> int (length (code st)))
      \<longrightarrow> view_text (update st)
          = replaced_text [nbsp, nbsp, nbsp] (code st) (foldedRanges (folded st)))
   \<and> createFolds scenario_text None None
        [as_provider (blockCommentFolding scenario_tokens scenario_text ''javascript'' c_like)]
      = Inr scenario_created
   \<and> folding_toggleFold (foldPositions scenario_created) 2 None (folded scenario_created)
      = Inr (True, folded scenario_folded)
   \<and> view_text (update scenario_folded)
      = ''A'' @ [newline] @ ''/*'' @ [nbsp, nbsp, nbsp] @ ''*/'' @ [newline] @ ''B''
   \<and> fullCode (update scenario_folded) = scenario_text"
proof (intro conjI impI)
  show "fullCode (update st) = fullCode st"
    by (simp add: fullCode_def update_def)
  show "fullCode (update scenario_folded) = scenario_text"
    by (simp add: fullCode_def update_def scenario_folded_def scenario_created_def)
  show "view_text (update scenario_folded)
      = ''A'' @ [newline] @ ''/*'' @ [nbsp, nbsp, nbsp] @ ''*/'' @ [newline] @ ''B''"
    by (rule scenario_view)
  show "folding_toggleFold (foldPositions scenario_created) 2 None (folded scenario_created)
      = Inr (True, folded scenario_folded)"
    by (rule scenario_toggle)
  show "createFolds scenario_text None None
        [as_provider (blockCommentFolding scenario_tokens scenario_text ''javascript'' c_like)]
      = Inr scenario_created"
    by (rule scenario_createFolds)
next
  assume a: "valid_ranges (foldedRanges (folded st)) \<and> non_overlapping (foldedRanges (folded st))
        \<and> (\<forall>(s, e) \<in> set (foldedRanges (folded st)). e \<le> int (length (code st)))"
  then show "view_text (update st)
      = replaced_text [nbsp, nbsp, nbsp] (code st) (foldedRanges (folded st))"
    using update_view_text[of "foldedRanges (folded st)" "code st"] by (simp add: update_def)
qed

theorem update_replaces_folded_ranges_witness:
  "valid_ranges (foldedRanges (folded scenario_folded))
   \<and> non_overlapping (foldedRanges (folded scenario_folded))
   \<and> foldedRanges (folded scenario_folded) = [(4, 9)]
   \<and> 9 \<le> int (length (code scenario_folded))
   \<and> view_text (update scenario_folded)
       = replaced_text [nbsp, nbsp, nbsp] (code scenario_folded)
           (foldedRanges (folded scenario_folded))
   \<and> replaced_text [nbsp, nbsp, nbsp] (code scenario_folded)
         (foldedRanges (folded scenario_folded))
       = ''A'' @ [newline] @ ''/*'' @ [nbsp, nbsp, nbsp] @ ''*/'' @ [newline] @ ''B''"
proof -
  have f: "foldedRanges (folded scenario_folded) = [(4, 9)]" "code scenario_folded = scenario_text"
    by (simp_all add: scenario_folded_def scenario_created_def)
  have v: "valid_ranges [(4, 9)]" "non_overlapping [(4, 9)]"
    "\<forall>(s, e) \<in> set [(4, 9)]. e \<le> int (length scenario_text)"
    by (simp_all add: valid_ranges_def non_overlapping_def scenario_text_def)
  have r: "replaced_text [nbsp, nbsp, nbsp] scenario_text [(4, 9)]
      = ''A'' @ [newline] @ ''/*'' @ [nbsp, nbsp, nbsp] @ ''*/'' @ [newline] @ ''B''"
    by (simp add: replaced_text_def replace_range_def scenario_text_def)
  have l: "9 \<le> int (length scenario_text)"
    by (simp add: scenario_text_def)
  show ?thesis
    using v r l update_replaces_folded_ranges[of scenario_folded] by (simp add: f)
qed

text \<open>
  The view of the scenario is not the text \<open>A\<close>, \<open>...\<close>, \<open>B\<close> of the claim, and not a
  placeholder alone on the middle line either: the delimiters of the comment stay, and
  the placeholder is made of no-break spaces. And when folded ranges overlap the view is
  not the text with the ranges replaced: with \<open>(0, 8)\<close> and \<open>(2, 4)\<close> folded, \<open>update\<close>
  appends the text from offset 4 on after two placeholders, so the characters at the
  offsets 4 to 7 are in the view although \<open>(0, 8)\<close> is folded.
\<close>

theorem scenario_view_counterexample:
  "createFolds scenario_text None None
        [as_provider (blockCommentFolding scenario_tokens scenario_text ''javascript'' c_like)]
      = Inr scenario_created
   \<and> folding_toggleFold (foldPositions scenario_created) 2 None (folded scenario_created)
      = Inr (True, folded scenario_folded)
   \<and> view_text (update scenario_folded)
      = ''A'' @ [newline] @ ''/*'' @ [nbsp, nbsp, nbsp] @ ''*/'' @ [newline] @ ''B''
   \<and> view_text (update scenario_folded) \<noteq> ''A'' @ [newline] @ ''...'' @ [newline] @ ''B''
   \<and> view_text (update scenario_folded)
      \<noteq> ''A'' @ [newline] @ [nbsp, nbsp, nbsp] @ [newline] @ ''B''
   \<and> toggles [None, Some (0, 8), Some (2, 4)] [1, 2] init_state
       = Inr \<lparr>foldedLines = [1, 2], foldedRanges = [(0, 8), (2, 4)]\<rparr>
   \<and> view_text (update \<lparr>code = ''a'' @ [newline] @ ''bcdefghij'',
         view_text = ''a'' @ [newline] @ ''bcdefghij'',
         foldPositions = [None, Some (0, 8), Some (2, 4)],
         folded = \<lparr>foldedLines = [1, 2], foldedRanges = [(0, 8), (2, 4)]\<rparr>\<rparr>)
       = [nbsp, nbsp, nbsp, nbsp, nbsp, nbsp] @ ''defghij''"
proof -
  have "toggles [None, Some (0, 8), Some (2, 4)] [1, 2] init_state
       = Inr \<lparr>foldedLines = [1, 2], foldedRanges = [(0, 8), (2, 4)]\<rparr>"
    by (simp add: toggleFold_def lookup_def init_state_def addFold_def)
  moreover have "view_text (update \<lparr>code = ''a'' @ [newline] @ ''bcdefghij'',
         view_text = ''a'' @ [newline] @ ''bcdefghij'',
         foldPositions = [None, Some (0, 8), Some (2, 4)],
         folded = \<lparr>foldedLines = [1, 2], foldedRanges = [(0, 8), (2, 4)]\<rparr>\<rparr>)
       = [nbsp, nbsp, nbsp, nbsp, nbsp, nbsp] @ ''defghij''"
    by (simp add: update_def js_slice_def js_slice_from_def)
  moreover have "''A'' @ [newline] @ ''/*'' @ [nbsp, nbsp, nbsp] @ ''*/'' @ [newline] @ ''B''
      \<noteq> ''A'' @ [newline] @ ''...'' @ [newline] @ ''B''"
    by simp
  moreover have "''A'' @ [newline] @ ''/*'' @ [nbsp, nbsp, nbsp] @ ''*/'' @ [newline] @ ''B''
      \<noteq> ''A'' @ [newline] @ [nbsp, nbsp, nbsp] @ [newline] @ ''B''"
    by (simp add: nbsp_def)
  ultimately show ?thesis
    using scenario_createFolds scenario_toggle scenario_view by simp
qed

subsection \<open>The titles of the markdown provider\<close>

text \<open>
  Claim C9 does not hold of the code. In the text with the headings \<open># A\<close>, \<open>## B\<close>, \<open># C\<close>
  and \<open>### D\<close> the heading \<open># C\<close> closes \<open>A\<close> and \<open>B\<close>. At the end of the input the titles
  still open are \<open>C\<close> and \<open>D\<close>, but \<open>closeTitles(0)\<close> walks the levels 0 to 2 and finds the
  start of \<open>B\<close> still stored at level 1: it pushes a second range for \<open>B\<close>, from offset 8 to
  the end of the document. The titles of the specification give no such range. On the
  scenario of the specification, where both titles stay open to the end, the code and
  the specification agree.
\<close>

theorem markdownFolding_stale_title:
  "markdownFolding md_tokens md_text ''md''
     = Inr [(Some 3, 10), (Some 8, 10), (Some 14, 22), (Some 8, 22), (Some 20, 22)]
   \<and> markdownFolding_spec md_tokens md_text ''md''
     = Inr [(Some 3, 10), (Some 8, 10), (Some 14, 22), (Some 20, 22)]
   \<and> markdownFolding md_scenario_tokens md_scenario_text ''md''
     = Inr [(Some 3, 18), (Some 13, 18)]
   \<and> markdownFolding_spec md_scenario_tokens md_scenario_text ''md''
     = Inr [(Some 3, 18), (Some 13, 18)]"
  by code_simp

subsection \<open>The tables that createFolds builds\<close>

lemma numLines_loop_ge: "cnt \<le> numLines_loop str e start cnt"
proof (induction str e start cnt rule: numLines_loop.induct)
  case (1 str e start cnt)
  show ?case
  proof (cases "indexOf str newline start + 1 \<noteq> 0 \<and> indexOf str newline start + 1 \<le> e")
    case True
    then show ?thesis
      using "1.IH"[OF refl True] by (subst numLines_loop.simps) (simp add: Let_def)
  next
    case False
    then show ?thesis by (subst numLines_loop.simps) (auto simp: Let_def)
  qed
qed

lemma numLines_loop_mono:
  "e \<le> e' \<Longrightarrow> numLines_loop str e start cnt \<le> numLines_loop str e' start cnt"
proof (induction str e start cnt rule: numLines_loop.induct)
  case (1 str e start cnt)
  let ?x = "indexOf str newline start + 1"
  show ?case
  proof (cases "?x \<noteq> 0 \<and> ?x \<le> e")
    case True
    then have t': "?x \<noteq> 0 \<and> ?x \<le> e'" using "1.prems" by simp
    have "numLines_loop str e start cnt = numLines_loop str e ?x (Suc cnt)"
      using True by (subst numLines_loop.simps) (simp add: Let_def)
    moreover have "numLines_loop str e' start cnt = numLines_loop str e' ?x (Suc cnt)"
      using t' by (subst numLines_loop.simps) (simp add: Let_def)
    ultimately show ?thesis using "1.IH"[OF refl True "1.prems"] by simp
  next
    case False
    then have a: "numLines_loop str e start cnt = cnt"
      by (subst numLines_loop.simps) (auto simp: Let_def)
    have "cnt \<le> numLines_loop str e' start cnt"
    proof (cases "?x \<noteq> 0 \<and> ?x \<le> e'")
      case True
      then have "numLines_loop str e' start cnt = numLines_loop str e' ?x (Suc cnt)"
        by (subst numLines_loop.simps) (simp add: Let_def)
      then show ?thesis using numLines_loop_ge[of "Suc cnt" str e' ?x] by simp
    next
      case False
      then show ?thesis by (subst numLines_loop.simps) (auto simp: Let_def)
    qed
    with a show ?thesis by simp
  qed
qed

lemma numLines_mono: "a \<le> b \<Longrightarrow> numLines str 0 a \<le> numLines str 0 b"
  by (simp add: numLines_def numLines_loop_mono)

text \<open>
  In a table built by \<open>createFolds\<close> every entry is a collected range that sits at the
  line of its start, so the starts of the entries grow with the line number.
\<close>

lemma createFolds_table:
  assumes "createFolds str matchTags matchBrackets providers = Inr st"
    and "lookup (foldPositions st) l = Some r" "lookup (foldPositions st) l' = Some r'"
  shows "numLines str 0 (fst r) = l" and "l < l' \<Longrightarrow> fst r < fst r'"
proof -
  from assms(1) obtain folds where st: "foldPositions st = reduce_folds str folds []"
    by (auto simp: createFolds_def split: sum.splits)
  from reduce_folds_origin[of str folds "[]" l r] assms(2)
  show l: "numLines str 0 (fst r) = l" by (simp add: st lookup_Nil)
  from reduce_folds_origin[of str folds "[]" l' r'] assms(3)
  have l': "numLines str 0 (fst r') = l'" by (simp add: st lookup_Nil)
  show "fst r < fst r'" if "l < l'"
  proof (rule ccontr)
    assume "\<not> fst r < fst r'"
    then have "numLines str 0 (fst r') \<le> numLines str 0 (fst r)" by (simp add: numLines_mono)
    with l l' that show False by simp
  qed
qed

subsection \<open>The markdown provider on regular streams\<close>

lemma filter_upto_ge: "0 \<le> level \<Longrightarrow> level \<le> lv + 1 \<Longrightarrow>
  filter (\<lambda>l. level \<le> l) [0..lv] = [level..lv]"
proof -
  assume a: "0 \<le> level" "level \<le> lv + 1"
  have s: "[0..lv] = [0..level - 1] @ [level..lv]"
  proof (cases "level \<le> lv")
    case True
    with a show ?thesis by (simp add: upto_split1[of 0 level lv])
  next
    case False
    with a have "level = lv + 1" by simp
    then show ?thesis by simp
  qed
  have 1: "filter (\<lambda>l. level \<le> l) [0..level - 1] = []" by (auto simp: filter_empty_conv)
  have 2: "filter (\<lambda>l. level \<le> l) [level..lv] = [level..lv]" by (auto simp: filter_id_conv)
  show ?thesis by (simp only: s filter_append 1 2) simp
qed

lemma filter_upto_less: "0 \<le> level \<Longrightarrow> level \<le> lv + 1 \<Longrightarrow>
  filter (\<lambda>l. l < level) [0..lv] = [0..level - 1]"
proof -
  assume a: "0 \<le> level" "level \<le> lv + 1"
  have s: "[0..lv] = [0..level - 1] @ [level..lv]"
  proof (cases "level \<le> lv")
    case True
    with a show ?thesis by (simp add: upto_split1[of 0 level lv])
  next
    case False
    with a have "level = lv + 1" by simp
    then show ?thesis by simp
  qed
  have 1: "filter (\<lambda>l. l < level) [0..level - 1] = [0..level - 1]" by (auto simp: filter_id_conv)
  have 2: "filter (\<lambda>l. l < level) [level..lv] = []" by (auto simp: filter_empty_conv)
  show ?thesis by (simp only: s filter_append 1 2) simp
qed

lemma closeTitles_agree:
  assumes "md_agree st sp" "0 \<le> level"
    and "level \<le> (case levels st of None \<Rightarrow> 0 | Some lv \<Rightarrow> lv + 1)"
  shows "closeTitles str st level = close_open_titles str sp level"
proof (cases "levels st")
  case None
  with assms(1) show ?thesis
    by (simp add: md_agree_def closeTitles_def close_open_titles_def)
next
  case (Some lv)
  with assms have lv: "level \<le> lv + 1"
    and o: "open_titles sp = map (\<lambda>l. (l, the (openTitles st l))) [0..lv]"
    and d: "\<forall>l \<in> set [0..lv]. openTitles st l \<noteq> None"
    and p: "md_pos st = spec_pos sp"
    by (simp_all add: md_agree_def)
  have f: "filter (\<lambda>(l, start). level \<le> l) (open_titles sp)
      = map (\<lambda>l. (l, the (openTitles st l))) [level..lv]"
    unfolding o by (simp add: filter_map comp_def filter_upto_ge[OF assms(2) lv])
  have "set [level..lv] \<subseteq> set [0..lv]" using assms(2) by auto
  with d have d': "\<forall>l \<in> set [level..lv]. openTitles st l \<noteq> None" by blast
  show ?thesis
    using d' by (auto simp: closeTitles_def close_open_titles_def Some f p Let_def comp_def)
qed

lemma md_agree_push:
  "md_agree st sp \<Longrightarrow>
   md_agree (st\<lparr>md_folds := md_folds st @ xs\<rparr>) (sp\<lparr>spec_folds := spec_folds sp @ xs\<rparr>)"
  by (simp add: md_agree_def split: option.splits)

lemma md_agree_advance:
  "md_agree st sp \<Longrightarrow>
   md_agree (st\<lparr>md_pos := md_pos st + n\<rparr>) (sp\<lparr>spec_pos := spec_pos sp + n\<rparr>)"
  by (simp add: md_agree_def split: option.splits)

lemma md_agree_title:
  assumes "md_agree st sp" "0 \<le> level"
    and "level \<le> (case levels st of None \<Rightarrow> 0 | Some lv \<Rightarrow> lv + 1)"
  shows "md_agree
     (st\<lparr>md_folds := md_folds st @ closeTitles str st level,
         openTitles := (openTitles st)(level \<mapsto> start), levels := Some level\<rparr>)
     (sp\<lparr>spec_folds := spec_folds sp @ close_open_titles str sp level,
         open_titles := filter (\<lambda>(l, s). l < level) (open_titles sp) @ [(level, start)]\<rparr>)"
proof -
  have c: "closeTitles str st level = close_open_titles str sp level"
    by (rule closeTitles_agree[OF assms])
  have p: "md_pos st = spec_pos sp" "md_folds st = spec_folds sp"
    using assms(1) by (simp_all add: md_agree_def)
  let ?f = "\<lambda>l. (l, the (openTitles st l))"
  let ?g = "\<lambda>l. (l, the (((openTitles st)(level \<mapsto> start)) l))"
  have up: "[0..level] = [0..level - 1] @ [level]"
    using assms(2) by (simp add: upto_rec2)
  have same: "map ?g [0..level - 1] = map ?f [0..level - 1]"
    by (rule map_cong) auto
  have o: "filter (\<lambda>(l, s). l < level) (open_titles sp) = map ?f [0..level - 1]"
  proof (cases "levels st")
    case None
    with assms(1,2,3) show ?thesis by (simp add: md_agree_def)
  next
    case (Some lv)
    with assms have lv: "level \<le> lv + 1"
      and op: "open_titles sp = map ?f [0..lv]"
      by (simp_all add: md_agree_def)
    show ?thesis
      unfolding op by (simp add: filter_map comp_def filter_upto_less[OF assms(2) lv])
  qed
  have dom: "\<forall>l \<in> set [0..level]. ((openTitles st)(level \<mapsto> start)) l \<noteq> None"
  proof
    fix l assume l: "l \<in> set [0..level]"
    show "((openTitles st)(level \<mapsto> start)) l \<noteq> None"
    proof (cases "l = level")
      case True
      then show ?thesis by simp
    next
      case False
      with l have ll: "0 \<le> l" "l < level" by auto
      show ?thesis
      proof (cases "levels st")
        case None
        with assms(3) ll assms(2) show ?thesis by simp
      next
        case (Some lv)
        with assms have "level \<le> lv + 1" "\<forall>l \<in> set [0..lv]. openTitles st l \<noteq> None"
          by (simp_all add: md_agree_def)
        with ll False show ?thesis by simp
      qed
    qed
  qed
  have new: "filter (\<lambda>(l, s). l < level) (open_titles sp) @ [(level, start)] = map ?g [0..level]"
    by (simp add: up o same del: fun_upd_apply) simp
  show ?thesis
    using dom assms(2) by (simp add: md_agree_def c p new del: fun_upd_apply)
qed

lemma md_step_agree:
  assumes "md_agree st sp" "title_ok st t"
  shows "case md_step str st t of
           Inl e \<Rightarrow> md_spec_step str sp t = Inl e
         | Inr st' \<Rightarrow> (\<exists>sp'. md_spec_step str sp t = Inr sp' \<and> md_agree st' sp')"
proof (cases t)
  case (TStr s)
  then show ?thesis
    using md_agree_advance[OF assms(1), of "int (length s)"]
    by (simp add: md_step_def md_spec_step_def)
next
  case (Token ty al c len)
  have p: "md_pos st = spec_pos sp" using assms(1) by (simp add: md_agree_def)
  show ?thesis
  proof (cases "ty = ''title''")
    case True
    show ?thesis
    proof (cases "title_info c (spec_pos sp) (int len)")
      case (Inl e)
      with True Token p show ?thesis by (simp add: md_step_def md_spec_step_def)
    next
      case (Inr ls)
      obtain level start where ls: "ls = (level, start)" by (cases ls)
      have b: "0 \<le> level" "level \<le> (case levels st of None \<Rightarrow> 0 | Some lv \<Rightarrow> lv + 1)"
        using assms(2) True Token Inr p by (simp_all add: title_ok_def ls)
      let ?st2 = "st\<lparr>md_folds := md_folds st @ closeTitles str st level,
         openTitles := (openTitles st)(level \<mapsto> start), levels := Some level\<rparr>"
      let ?sp2 = "sp\<lparr>spec_folds := spec_folds sp @ close_open_titles str sp level,
         open_titles := filter (\<lambda>(l, s). l < level) (open_titles sp) @ [(level, start)]\<rparr>"
      have a2: "md_agree ?st2 ?sp2" by (rule md_agree_title[OF assms(1) b])
      have a3: "md_agree (?st2\<lparr>md_pos := md_pos ?st2 + int len\<rparr>)
          (?sp2\<lparr>spec_pos := spec_pos ?sp2 + int len\<rparr>)"
        by (rule md_agree_advance[OF a2])
      have 1: "md_step str st t = Inr (?st2\<lparr>md_pos := md_pos ?st2 + int len\<rparr>)"
        using True Token Inr p by (simp add: md_step_def ls)
      have 2: "md_spec_step str sp t = Inr (?sp2\<lparr>spec_pos := spec_pos ?sp2 + int len\<rparr>)"
        using True Token Inr by (simp add: md_spec_step_def ls)
      show ?thesis using a3 by (simp only: 1 2 sum.case) blast
    qed
  next
    case False
    show ?thesis
    proof (cases "ty = ''code'' \<and> (al = None \<or> al = Some [])")
      case nc: False
      have 1: "md_step str st t = Inr (st\<lparr>md_pos := md_pos st + int len\<rparr>)"
        using False nc Token by (auto simp: md_step_def)
      have 2: "md_spec_step str sp t = Inr (sp\<lparr>spec_pos := spec_pos sp + int len\<rparr>)"
        using False nc Token by (auto simp: md_spec_step_def)
      show ?thesis
        using md_agree_advance[OF assms(1), of "int len"] by (simp only: 1 2 sum.case) blast
    next
      case True
      show ?thesis
      proof (cases "code_range c (spec_pos sp) (int len)")
        case (Inl e)
        with True Token p show ?thesis by (auto simp: md_step_def md_spec_step_def)
      next
        case (Inr ab)
        obtain a b where ab: "ab = (a, b)" by (cases ab)
        let ?st1 = "st\<lparr>md_folds := md_folds st @ [(Some a, b)]\<rparr>"
        let ?sp1 = "sp\<lparr>spec_folds := spec_folds sp @ [(Some a, b)]\<rparr>"
        have a1: "md_agree ?st1 ?sp1" by (rule md_agree_push[OF assms(1)])
        have a2: "md_agree (?st1\<lparr>md_pos := md_pos ?st1 + int len\<rparr>)
            (?sp1\<lparr>spec_pos := spec_pos ?sp1 + int len\<rparr>)"
          by (rule md_agree_advance[OF a1])
        have 1: "md_step str st t = Inr (?st1\<lparr>md_pos := md_pos ?st1 + int len\<rparr>)"
          using True False Token Inr p by (auto simp: md_step_def ab)
        have 2: "md_spec_step str sp t = Inr (?sp1\<lparr>spec_pos := spec_pos ?sp1 + int len\<rparr>)"
          using True False Token Inr by (auto simp: md_spec_step_def ab)
        show ?thesis using a2 by (simp only: 1 2 sum.case) blast
      qed
    qed
  qed
qed

lemma md_loop_agree:
  "md_agree st sp \<Longrightarrow> md_regular str st ts \<Longrightarrow>
   (case md_loop str st ts of
      Inl e \<Rightarrow> md_spec_loop str sp ts = Inl e
    | Inr st' \<Rightarrow> (\<exists>sp'. md_spec_loop str sp ts = Inr sp' \<and> md_agree st' sp'))"
proof (induction ts arbitrary: st sp)
  case Nil
  then show ?case by simp
next
  case (Cons t ts)
  from Cons.prems(2) have ok: "title_ok st t" by simp
  note step = md_step_agree[OF Cons.prems(1) ok, of str]
  show ?case
  proof (cases "md_step str st t")
    case (Inl e)
    with step show ?thesis by simp
  next
    case (Inr st1)
    with step obtain sp1 where sp1: "md_spec_step str sp t = Inr sp1" "md_agree st1 sp1"
      by auto
    from Cons.prems(2) Inr have r: "md_regular str st1 ts" by simp
    have e: "md_loop str st (t # ts) = md_loop str st1 ts" using Inr by simp
    have e': "md_spec_loop str sp (t # ts) = md_spec_loop str sp1 ts" using sp1(1) by simp
    show ?thesis using Cons.IH[OF sp1(2) r] by (simp only: e e')
  qed
qed

text \<open>
  On a regular token stream the provider returns what the titles of the specification
  give: every range it pushes belongs to a title that is open, and every open title of
  the level or above gets one.
\<close>

lemma markdownFolding_regular:
  assumes "md_regular str \<lparr>md_folds = [], md_pos = 0, openTitles = Map.empty, levels = None\<rparr>
     tokenList"
  shows "markdownFolding tokenList str language = markdownFolding_spec tokenList str language"
proof (cases "language = ''markdown'' \<or> language = ''md''")
  case False
  then show ?thesis by (simp add: markdownFolding_def markdownFolding_spec_def)
next
  case True
  let ?st = "\<lparr>md_folds = [], md_pos = 0, openTitles = Map.empty, levels = None\<rparr>"
  let ?sp = "\<lparr>spec_folds = [], spec_pos = 0, open_titles = []\<rparr>"
  have a: "md_agree ?st ?sp" by (simp add: md_agree_def)
  note l = md_loop_agree[OF a assms]
  show ?thesis
  proof (cases "md_loop str ?st tokenList")
    case (Inl e)
    with l True show ?thesis by (simp add: markdownFolding_def markdownFolding_spec_def)
  next
    case (Inr st')
    with l obtain sp' where sp': "md_spec_loop str ?sp tokenList = Inr sp'" "md_agree st' sp'"
      by auto
    have f: "md_folds st' = spec_folds sp'" using sp'(2) by (simp add: md_agree_def)
    have "0 \<le> (case levels st' of None \<Rightarrow> 0 | Some lv \<Rightarrow> lv + 1)"
      using sp'(2) by (auto simp: md_agree_def split: option.splits)
    from closeTitles_agree[OF sp'(2) _ this, of str]
    have "closeTitles str st' 0 = close_open_titles str sp' 0" by simp
    with True Inr sp'(1) f show ?thesis
      by (simp add: markdownFolding_def markdownFolding_spec_def)
  qed
qed

lemma md_scenario_regular:
  "md_regular md_scenario_text
     \<lparr>md_folds = [], md_pos = 0, openTitles = Map.empty, levels = None\<rparr> md_scenario_tokens"
  by code_simp

end
